theory Spec2Isabelle
  imports Main "HOL-Library.Sublist"
begin

section \<open>Data model (agent/types.go)\<close>

text \<open>
  Go strings are byte sequences: \<^typ>\<open>string\<close> here, one \<^typ>\<open>char\<close> per byte.
  A Go \<^verbatim>\<open>error\<close> is modelled by its message; \<^verbatim>\<open>nil\<close> is \<^term>\<open>None\<close>.
  \<^verbatim>\<open>TaskType\<close> is a named string type, so any string can occur as a task type
  (a plan is decoded from JSON).
\<close>

type_synonym go_error = string

type_synonym TaskType = string

definition TaskTypeSearch :: TaskType where "TaskTypeSearch = ''SEARCH''"
definition TaskTypeAnalyze :: TaskType where "TaskTypeAnalyze = ''ANALYZE''"
definition TaskTypeReport :: TaskType where "TaskTypeReport = ''REPORT''"
definition TaskTypeRender :: TaskType where "TaskTypeRender = ''RENDER''"
definition TaskTypePodcast :: TaskType where "TaskTypePodcast = ''PODCAST''"
definition TaskTypePPT :: TaskType where "TaskTypePPT = ''PPT''"

type_synonym addr = nat

text \<open>
  A Go \<^verbatim>\<open>[]string\<close> is a view of an array: the array it points into, the offset of
  its first element, its length and its capacity.  Two slices on one array share their
  elements, and a write through one is seen through the other.  The nil slice has length
  and capacity 0.
\<close>

record gslice =
  sl_arr :: addr
  sl_off :: nat
  sl_len :: nat
  sl_cap :: nat

definition nil_slice :: gslice where
  "nil_slice = \<lparr>sl_arr = 0, sl_off = 0, sl_len = 0, sl_cap = 0\<rparr>"

text \<open>
  The dynamic values an \<^verbatim>\<open>interface{}\<close> parameter can hold.  \<open>PStrings\<close> is a Go
  \<^verbatim>\<open>[]string\<close>, held as the slice and not as a copy of its elements; \<open>PArray\<close> is a
  \<^verbatim>\<open>[]interface{}\<close>, which is what the JSON decoder produces for every JSON array;
  \<open>PNumber\<close> stands for the numeric values, which no modelled code inspects.  A type
  assertion \<^verbatim>\<open>v.([]string)\<close> succeeds on \<open>PStrings\<close> only, \<^verbatim>\<open>v.(string)\<close> on
  \<open>PString\<close> only.
\<close>

datatype pvalue =
    PString string
  | PStrings gslice
  | PBool bool
  | PNumber int
  | PArray "pvalue list"
  | PNil

text \<open>
  A Go map is a reference: copying a \<^verbatim>\<open>Task\<close> struct copies the reference, and a write
  through one copy is seen through every other.  Maps and string arrays therefore live
  in a heap; a struct holds the address of its map, and the \<^verbatim>\<open>nil\<close> map is
  \<^term>\<open>None\<close>.  How much room the runtime gives an array that \<^verbatim>\<open>append\<close> has to grow
  is left open by the language: \<open>newcap h c n\<close> is the capacity chosen for a slice of
  capacity \<open>c\<close> that needs \<open>n\<close> elements, and at least \<open>n\<close> is always taken.
\<close>

type_synonym gomap = "string \<rightharpoonup> pvalue"

record heap =
  cells :: "addr \<Rightarrow> gomap"
  arrays :: "addr \<Rightarrow> string list"
  next_addr :: addr
  newcap :: "nat \<Rightarrow> nat \<Rightarrow> nat"

definition make_map :: "heap \<Rightarrow> addr \<times> heap" where
  "make_map h =
     (next_addr h,
      h\<lparr>cells := (cells h)(next_addr h := Map.empty), next_addr := Suc (next_addr h)\<rparr>)"

text \<open>The elements of a slice.\<close>

definition slice_val :: "heap \<Rightarrow> gslice \<Rightarrow> string list" where
  "slice_val h sl = take (sl_len sl) (drop (sl_off sl) (arrays h (sl_arr sl)))"

text \<open>
  \<^verbatim>\<open>append(sl, xs...)\<close>.  When the capacity suffices the elements are written into the
  array of \<open>sl\<close>, behind its last element, and the result is a longer slice on the same
  array; otherwise a new array is allocated, with the old elements and the new ones.
\<close>

definition go_append :: "heap \<Rightarrow> gslice \<Rightarrow> string list \<Rightarrow> gslice \<times> heap" where
  "go_append h sl xs =
     (if sl_len sl + length xs \<le> sl_cap sl then
        (let a = arrays h (sl_arr sl);
             k = sl_off sl + sl_len sl
         in (sl\<lparr>sl_len := sl_len sl + length xs\<rparr>,
             h\<lparr>arrays := (arrays h)(sl_arr sl := take k a @ xs @ drop (k + length xs) a)\<rparr>))
      else
        (let n = sl_len sl + length xs;
             c = max n (newcap h (sl_cap sl) n)
         in (\<lparr>sl_arr = next_addr h, sl_off = 0, sl_len = n, sl_cap = c\<rparr>,
             h\<lparr>arrays := (arrays h)(next_addr h := slice_val h sl @ xs @ replicate (c - n) []),
               next_addr := Suc (next_addr h)\<rparr>)))"

definition map_load :: "heap \<Rightarrow> addr \<Rightarrow> string \<Rightarrow> pvalue option" where
  "map_load h a k = cells h a k"

definition map_store :: "heap \<Rightarrow> addr \<Rightarrow> string \<Rightarrow> pvalue \<Rightarrow> heap" where
  "map_store h a k v = h\<lparr>cells := (cells h)(a := (cells h a)(k \<mapsto> v))\<rparr>"

text \<open>Reading a key of a possibly nil map: a nil map reads as empty.\<close>

definition param :: "heap \<Rightarrow> addr option \<Rightarrow> string \<Rightarrow> pvalue option" where
  "param h m k = (case m of None \<Rightarrow> None | Some a \<Rightarrow> map_load h a k)"

text \<open>
  What a subagent reads by \<^verbatim>\<open>task.Parameters["context"].([]string)\<close>: the elements of
  the slice, when the parameter holds one.
\<close>

definition context_strings :: "heap \<Rightarrow> addr option \<Rightarrow> string list option" where
  "context_strings h m =
     (case param h m ''context'' of
        Some (PStrings sl) \<Rightarrow> Some (slice_val h sl)
      | _ \<Rightarrow> None)"

record Task =
  Type :: TaskType
  Description :: string
  Parameters :: "addr option"

record Result =
  TaskType :: TaskType
  Success :: bool
  Output :: string
  Error :: string
  Metadata :: "addr option"
  NewTasks :: "Task list"

text \<open>The plan's own description is the field \<open>PlanDescription\<close> (Go: \<^verbatim>\<open>Plan.Description\<close>).\<close>

record Plan =
  Tasks :: "Task list"
  PlanDescription :: string

text \<open>
  A subagent is external code behind the \<^verbatim>\<open>Subagent\<close> interface: it receives the task
  (with its map reference), may read and write the heap, the maps and the arrays of the
  slices it can reach, and its own world \<open>'w\<close> (network, language model, files), and
  returns both Go results, the \<^verbatim>\<open>Result\<close> and the error.  A subagent that panics or
  never returns is outside this model.
\<close>

type_synonym 'w Subagent = "Task \<Rightarrow> heap \<times> 'w \<Rightarrow> (Result \<times> go_error option) \<times> heap \<times> 'w"

record message =
  Role :: string
  Content :: string

definition ChatMessageRoleUser :: string where "ChatMessageRoleUser = ''user''"

text \<open>
  The fields of \<^verbatim>\<open>PlanningAgent\<close> that \<^verbatim>\<open>Execute\<close> reads.  Console output
  and the \<^verbatim>\<open>Log\<close> notifications of the interaction handler return nothing to the
  executor and are not modelled.
\<close>

record 'w PlanningAgent =
  messages :: "message list"
  subagents :: "TaskType \<rightharpoonup> 'w Subagent"

section \<open>The executor (agent/agent.go, Execute)\<close>

datatype exec_error =
    UnknownTaskType TaskType   \<comment> \<open>\<^verbatim>\<open>unknown task type: %s\<close>\<close>
  | TaskFailed nat go_error    \<comment> \<open>\<^verbatim>\<open>task %d failed: %w\<close>, the number is \<open>i + 1\<close>\<close>

text \<open>
  The variables of the loop: the index \<open>i\<close> (field \<open>loop_i\<close>), \<^verbatim>\<open>plan.Tasks\<close>,
  \<^verbatim>\<open>results\<close>, \<^verbatim>\<open>contextData\<close>, and the heap and the world the subagents act on.
  \<^verbatim>\<open>contextData\<close> is a slice on an array of the heap: line 268 stores this very slice
  in the parameter map of a task, so the subagent and the executor share its elements.
  The task and result slices are modelled by their element sequences; \<^verbatim>\<open>append\<close>
  never changes an element below the length of a slice it is given.
\<close>

record 'w exec_state =
  loop_i :: nat
  plan_tasks :: "Task list"
  results :: "Result list"
  contextData :: gslice
  hp :: heap
  world :: 'w

text \<open>Lines 251--257: the user-role history entries, each as \<^verbatim>\<open>User: %s\n\<close>.\<close>

definition global_context :: "message list \<Rightarrow> string" where
  "global_context msgs =
     concat (map (\<lambda>msg. ''User: '' @ Content msg @ [CHR 0x0A])
                 (filter (\<lambda>msg. Role msg = ChatMessageRoleUser) msgs))"

text \<open>
  Lines 247--270, on the local copy \<^verbatim>\<open>task\<close> of \<^verbatim>\<open>plan.Tasks[i]\<close>.  A nil parameter
  map is replaced by a fresh one in the copy only; a non-nil one is shared with the plan
  and written in place.  The second nil test (line 261) can never succeed and is left
  out.  Line 266 appends the elements of \<^verbatim>\<open>contextData\<close> to the task's own slice;
  line 268 stores the slice \<^verbatim>\<open>contextData\<close> itself.
\<close>

definition prepare_task :: "message list \<Rightarrow> gslice \<Rightarrow> Task \<Rightarrow> heap \<Rightarrow> Task \<times> heap" where
  "prepare_task msgs ctx task0 h0 =
     (let (a, task, h1) =
            (case Parameters task0 of
               None \<Rightarrow> (let (a, h) = make_map h0 in (a, task0\<lparr>Parameters := Some a\<rparr>, h))
             | Some a \<Rightarrow> (a, task0, h0));
          h2 = map_store h1 a ''global_context'' (PString (global_context msgs));
          h3 = (if sl_len ctx > 0 then
                  (case map_load h2 a ''context'' of
                     Some (PStrings existingContext) \<Rightarrow>
                       (let (sl, h) = go_append h2 existingContext (slice_val h2 ctx)
                        in map_store h a ''context'' (PStrings sl))
                   | _ \<Rightarrow> map_store h2 a ''context'' (PStrings ctx))
                else h2)
      in (task, h3))"

text \<open>
  Lines 238--277: take \<^verbatim>\<open>plan.Tasks[i]\<close>, prepare it, look the subagent up and call it.
  The result is the prepared task and heap, and what the subagent returned
  (\<^term>\<open>None\<close> when no subagent is registered for the type).
\<close>

definition dispatch ::
  "'w PlanningAgent \<Rightarrow> 'w exec_state \<Rightarrow>
     (Task \<times> heap) \<times> ((Result \<times> go_error option) \<times> heap \<times> 'w) option" where
  "dispatch ag s =
     (let (task, h) = prepare_task (messages ag) (contextData s) (plan_tasks s ! loop_i s) (hp s)
      in ((task, h),
          (case subagents ag (Type task) of
             None \<Rightarrow> None
           | Some subagent \<Rightarrow> Some (subagent task (h, world s)))))"

text \<open>
  The heap when the call of line 277 has returned, or, without a subagent, when line 273
  is reached.
\<close>

definition dispatched_heap :: "'w PlanningAgent \<Rightarrow> 'w exec_state \<Rightarrow> heap" where
  "dispatched_heap ag s =
     (case dispatch ag s of
        ((task, h), None) \<Rightarrow> h
      | ((task, h), Some (ret, h', w')) \<Rightarrow> h')"

text \<open>Lines 297--298: the tail is copied, then the new tasks and the copy are appended.\<close>

definition insert_new_tasks :: "nat \<Rightarrow> Task list \<Rightarrow> Task list \<Rightarrow> Task list" where
  "insert_new_tasks i tasks new =
     (let rear = [] @ drop (i + 1) tasks
      in take (i + 1) tasks @ (new @ rear))"

text \<open>Line 302.\<close>

definition context_entry :: "TaskType \<Rightarrow> string \<Rightarrow> string" where
  "context_entry ty out = ''Output from '' @ ty @ '' task:'' @ [CHR 0x0A] @ out"

text \<open>
  One iteration of the loop body with the increment (lines 238--318), for a state with
  \<open>loop_i s < length (plan_tasks s)\<close>.  \<open>Inl\<close> is a \<^verbatim>\<open>return nil, err\<close>, with the
  state it leaves behind.
\<close>

definition exec_step ::
  "'w PlanningAgent \<Rightarrow> 'w exec_state \<Rightarrow> (exec_error \<times> 'w exec_state) + 'w exec_state" where
  "exec_step ag s =
     (case dispatch ag s of
        ((task, h), None) \<Rightarrow> Inl (UnknownTaskType (Type task), s\<lparr>hp := h\<rparr>)
      | ((task, h), Some ((result, err), h', w')) \<Rightarrow>
          (case err of
             Some e \<Rightarrow> Inl (TaskFailed (loop_i s + 1) e, s\<lparr>hp := h', world := w'\<rparr>)
           | None \<Rightarrow>
               (let s1 = s\<lparr>hp := h', world := w', results := results s @ [result]\<rparr>;
                    s2 = (if Success result then
                            (let s' = (if NewTasks result \<noteq> [] then
                                         s1\<lparr>plan_tasks :=
                                              insert_new_tasks (loop_i s) (plan_tasks s) (NewTasks result)\<rparr>
                                       else s1);
                                 (sl, h'') = go_append (hp s') (contextData s')
                                               [context_entry (Type task) (Output result)]
                             in s'\<lparr>contextData := sl, hp := h''\<rparr>)
                          else s1)
                in Inr (s2\<lparr>loop_i := loop_i s + 1\<rparr>))))"

datatype 'w outcome =
    Finished "'w exec_state"               \<comment> \<open>\<^verbatim>\<open>return results, nil\<close>\<close>
  | Aborted exec_error "'w exec_state"     \<comment> \<open>\<^verbatim>\<open>return nil, err\<close>\<close>

text \<open>
  The loop has no bound of its own: a subagent that keeps returning new tasks keeps it
  running, and then the function has no value.
\<close>

partial_function (option) exec_loop :: "'w PlanningAgent \<Rightarrow> 'w exec_state \<Rightarrow> 'w outcome option" where
  "exec_loop ag s =
     (if loop_i s < length (plan_tasks s) then
        (case exec_step ag s of
           Inl (e, s') \<Rightarrow> Some (Aborted e s')
         | Inr s' \<Rightarrow> exec_loop ag s')
      else Some (Finished s))"

definition init_state :: "Plan \<Rightarrow> heap \<Rightarrow> 'w \<Rightarrow> 'w exec_state" where
  "init_state plan h w =
     \<lparr>loop_i = 0, plan_tasks = Tasks plan, results = [], contextData = nil_slice, hp = h,
      world = w\<rparr>"

definition Execute :: "'w PlanningAgent \<Rightarrow> Plan \<Rightarrow> heap \<Rightarrow> 'w \<Rightarrow> 'w outcome option" where
  "Execute ag plan h w = exec_loop ag (init_state plan h w)"

text \<open>What the caller receives: the results and a nil error, or no results and the error.\<close>

fun returned :: "'w outcome \<Rightarrow> exec_error + Result list" where
  "returned (Finished s) = Inr (results s)"
| "returned (Aborted e s) = Inl e"

fun final_state :: "'w outcome \<Rightarrow> 'w exec_state" where
  "final_state (Finished s) = s"
| "final_state (Aborted e s) = s"

text \<open>
  \<open>exec_steps ag n s = Some s'\<close>: from \<open>s\<close> the loop completes \<open>n\<close> iterations without
  returning and is then in \<open>s'\<close>.
\<close>

fun exec_steps :: "'w PlanningAgent \<Rightarrow> nat \<Rightarrow> 'w exec_state \<Rightarrow> 'w exec_state option" where
  "exec_steps ag 0 s = Some s"
| "exec_steps ag (Suc n) s =
     (if loop_i s < length (plan_tasks s) then
        (case exec_step ag s of
           Inl _ \<Rightarrow> None
         | Inr s' \<Rightarrow> exec_steps ag n s')
      else None)"

section \<open>The search subagent (package agent, SearchSubagent.Execute)\<close>

subsection \<open>Functions of the Go package \<^verbatim>\<open>strings\<close> on byte strings\<close>

text \<open>\<^verbatim>\<open>strings.Contains\<close>: the bytes of \<open>substr\<close> occur contiguously in \<open>s\<close>.\<close>

fun Contains :: "string \<Rightarrow> string \<Rightarrow> bool" where
  "Contains [] substr = (substr = [])"
| "Contains (c # cs) substr = (prefix substr (c # cs) \<or> Contains cs substr)"

text \<open>
  \<^verbatim>\<open>strings.ToUpper\<close>.  ASCII letters are mapped as Go maps them, and so are the only two
  other runes whose upper case is an ASCII letter: U+0131 (bytes C4 B1) becomes \<open>I\<close> and
  U+017F (bytes C5 BF) becomes \<open>S\<close>.  Every other byte of 0x80 and above is kept; Go
  replaces such runes by other runes outside ASCII, which does not change where ASCII
  text occurs in the result.
\<close>

definition upper_byte :: "char \<Rightarrow> char" where
  "upper_byte c =
     (let n = (of_char c :: nat) in if 97 \<le> n \<and> n \<le> 122 then char_of (n - 32) else c)"

fun ToUpper :: "string \<Rightarrow> string" where
  "ToUpper (c # d # cs) =
     (if c = CHR 0xC4 \<and> d = CHR 0xB1 then CHR ''I'' # ToUpper cs
      else if c = CHR 0xC5 \<and> d = CHR 0xBF then CHR ''S'' # ToUpper cs
      else upper_byte c # ToUpper (d # cs))"
| "ToUpper [c] = [upper_byte c]"
| "ToUpper [] = []"

text \<open>
  The UTF-8 encodings of the runes for which \<^verbatim>\<open>unicode.IsSpace\<close> holds: tab, line feed,
  vertical tab, form feed, carriage return, space, U+0085, U+00A0, U+1680, U+2000 to
  U+200A, U+2028, U+2029, U+202F, U+205F and U+3000.
\<close>

definition space_runes :: "string list" where
  "space_runes =
     [[CHR 0x09], [CHR 0x0A], [CHR 0x0B], [CHR 0x0C], [CHR 0x0D], [CHR 0x20],
      [CHR 0xC2, CHR 0x85], [CHR 0xC2, CHR 0xA0], [CHR 0xE1, CHR 0x9A, CHR 0x80],
      [CHR 0xE2, CHR 0x80, CHR 0x80], [CHR 0xE2, CHR 0x80, CHR 0x81], [CHR 0xE2, CHR 0x80, CHR 0x82],
      [CHR 0xE2, CHR 0x80, CHR 0x83], [CHR 0xE2, CHR 0x80, CHR 0x84], [CHR 0xE2, CHR 0x80, CHR 0x85],
      [CHR 0xE2, CHR 0x80, CHR 0x86], [CHR 0xE2, CHR 0x80, CHR 0x87], [CHR 0xE2, CHR 0x80, CHR 0x88],
      [CHR 0xE2, CHR 0x80, CHR 0x89], [CHR 0xE2, CHR 0x80, CHR 0x8A], [CHR 0xE2, CHR 0x80, CHR 0xA8],
      [CHR 0xE2, CHR 0x80, CHR 0xA9], [CHR 0xE2, CHR 0x80, CHR 0xAF], [CHR 0xE2, CHR 0x81, CHR 0x9F],
      [CHR 0xE3, CHR 0x80, CHR 0x80]]"

text \<open>Remove from the front of \<open>s\<close>, as long as there is one, any of the given byte sequences.\<close>

function trim_front :: "string list \<Rightarrow> string \<Rightarrow> string" where
  "trim_front pats s =
     (case find (\<lambda>p. p \<noteq> [] \<and> prefix p s) pats of
        Some p \<Rightarrow> trim_front pats (drop (length p) s)
      | None \<Rightarrow> s)"
  by pat_completeness auto
termination
proof (relation "measure (\<lambda>(pats, s). length s)")
  show "wf (measure (\<lambda>(pats, s). length s))" by simp
next
  fix pats :: "string list" and s p :: string
  assume "find (\<lambda>p. p \<noteq> [] \<and> prefix p s) pats = Some p"
  then have "p \<noteq> []" and "prefix p s" by (auto simp: find_Some_iff)
  then have "s \<noteq> []" by auto
  with \<open>p \<noteq> []\<close> show "((pats, drop (length p) s), (pats, s)) \<in> measure (\<lambda>(pats, s). length s)"
    by simp
qed

declare trim_front.simps [simp del]

text \<open>
  \<^verbatim>\<open>strings.TrimSpace\<close>: leading and trailing white space runes are removed.  A rune at
  the end of a string is found by its encoding read backwards.
\<close>

definition TrimSpace :: "string \<Rightarrow> string" where
  "TrimSpace s = rev (trim_front (map rev space_runes) (rev (trim_front space_runes s)))"

text \<open>\<^verbatim>\<open>strings.Trim\<close> for a cutset of ASCII characters: bytes of the cutset are removed at both ends.\<close>

definition Trim :: "string \<Rightarrow> string \<Rightarrow> string" where
  "Trim s cutset =
     rev (dropWhile (\<lambda>c. c \<in> set cutset) (rev (dropWhile (\<lambda>c. c \<in> set cutset) s)))"

subsection \<open>The collaborators\<close>

text \<open>
  The search providers of package \<^verbatim>\<open>tool\<close> and the chat completion of the language
  model client are external.  Each takes its argument and the world and returns both Go
  results.  Of a chat request only the user prompt varies; of the response the contents
  of the choices are kept.  Every call is also recorded in a log, with its argument and
  what it returned, in the order of the calls.
\<close>

record 'w search_env =
  TavilySearch :: "string \<Rightarrow> 'w \<Rightarrow> (string \<times> go_error option) \<times> 'w"
  DuckDuckGoSearch :: "string \<Rightarrow> 'w \<Rightarrow> (string \<times> go_error option) \<times> 'w"
  WikipediaSearch :: "string \<Rightarrow> 'w \<Rightarrow> (string \<times> go_error option) \<times> 'w"
  CreateChatCompletion :: "string \<Rightarrow> 'w \<Rightarrow> (string list \<times> go_error option) \<times> 'w"

datatype call =
    CallTavily string "string \<times> go_error option"
  | CallDuckDuckGo string "string \<times> go_error option"
  | CallWikipedia string "string \<times> go_error option"
  | CallChatCompletion string "string list \<times> go_error option"

definition tavily ::
  "'w search_env \<Rightarrow> string \<Rightarrow> 'w \<times> call list \<Rightarrow> (string \<times> go_error option) \<times> 'w \<times> call list" where
  "tavily env q st =
     (case TavilySearch env q (fst st) of (r, w') \<Rightarrow> (r, w', snd st @ [CallTavily q r]))"

definition duckduckgo ::
  "'w search_env \<Rightarrow> string \<Rightarrow> 'w \<times> call list \<Rightarrow> (string \<times> go_error option) \<times> 'w \<times> call list" where
  "duckduckgo env q st =
     (case DuckDuckGoSearch env q (fst st) of (r, w') \<Rightarrow> (r, w', snd st @ [CallDuckDuckGo q r]))"

definition wikipedia ::
  "'w search_env \<Rightarrow> string \<Rightarrow> 'w \<times> call list \<Rightarrow> (string \<times> go_error option) \<times> 'w \<times> call list" where
  "wikipedia env q st =
     (case WikipediaSearch env q (fst st) of (r, w') \<Rightarrow> (r, w', snd st @ [CallWikipedia q r]))"

definition chat ::
  "'w search_env \<Rightarrow> string \<Rightarrow> 'w \<times> call list \<Rightarrow> (string list \<times> go_error option) \<times> 'w \<times> call list" where
  "chat env prompt st =
     (case CreateChatCompletion env prompt (fst st) of
        (r, w') \<Rightarrow> (r, w', snd st @ [CallChatCompletion prompt r]))"

subsection \<open>The texts of the prompt and of the combined result, as UTF-8 bytes\<close>

definition prompt_query :: string where
  "prompt_query =
     [CHR 0xE7, CHR 0x94, CHR 0xA8, CHR 0xE6, CHR 0x88, CHR 0xB7, CHR 0xE6, CHR 0x9F, CHR 0xA5,
      CHR 0xE8, CHR 0xAF, CHR 0xA2] @
     '': ''"

definition prompt_results :: string where
  "prompt_results =
     [CHR 0x0A, CHR 0xE5, CHR 0xBD, CHR 0x93, CHR 0xE5, CHR 0x89, CHR 0x8D, CHR 0xE6, CHR 0x90,
      CHR 0x9C, CHR 0xE7, CHR 0xB4, CHR 0xA2, CHR 0xE7, CHR 0xBB, CHR 0x93, CHR 0xE6, CHR 0x9E,
      CHR 0x9C] @
     '':'' @
     [CHR 0x0A]"

definition prompt_question :: string where
  "prompt_question =
     [CHR 0x0A, CHR 0x0A, CHR 0xE4, CHR 0xBF, CHR 0xA1, CHR 0xE6, CHR 0x81, CHR 0xAF, CHR 0xE6,
      CHR 0x98, CHR 0xAF, CHR 0xE5, CHR 0x90, CHR 0xA6, CHR 0xE8, CHR 0xB6, CHR 0xB3, CHR 0xE4,
      CHR 0xBB, CHR 0xA5, CHR 0xE5, CHR 0x9B, CHR 0x9E, CHR 0xE7, CHR 0xAD, CHR 0x94, CHR 0xE7,
      CHR 0x94, CHR 0xA8, CHR 0xE6, CHR 0x88, CHR 0xB7, CHR 0xE7, CHR 0x9A, CHR 0x84, CHR 0xE6,
      CHR 0x9F, CHR 0xA5, CHR 0xE8, CHR 0xAF, CHR 0xA2, CHR 0xEF, CHR 0xBC, CHR 0x9F, CHR 0x0A,
      CHR 0xE5, CHR 0xA6, CHR 0x82, CHR 0xE6, CHR 0x9E, CHR 0x9C, CHR 0xE6, CHR 0x98, CHR 0xAF,
      CHR 0xEF, CHR 0xBC, CHR 0x8C, CHR 0xE8, CHR 0xAF, CHR 0xB7, CHR 0xE4, CHR 0xBB, CHR 0x85,
      CHR 0xE5, CHR 0x9B, CHR 0x9E, CHR 0xE5, CHR 0xA4, CHR 0x8D] @
     '' '' @
     [CHR 0x22] @
     ''SUFFICIENT'' @
     [CHR 0x22, CHR 0xE3, CHR 0x80, CHR 0x82, CHR 0x0A, CHR 0xE5, CHR 0xA6, CHR 0x82, CHR 0xE6,
      CHR 0x9E, CHR 0x9C, CHR 0xE5, CHR 0x90, CHR 0xA6, CHR 0xEF, CHR 0xBC, CHR 0x8C, CHR 0xE8,
      CHR 0xAF, CHR 0xB7, CHR 0xE5, CHR 0x9B, CHR 0x9E, CHR 0xE5, CHR 0xA4, CHR 0x8D, CHR 0xE4,
      CHR 0xB8, CHR 0x80, CHR 0xE4, CHR 0xB8, CHR 0xAA, CHR 0xE6, CHR 0x96, CHR 0xB0, CHR 0xE7,
      CHR 0x9A, CHR 0x84, CHR 0xE3, CHR 0x80, CHR 0x81, CHR 0xE6, CHR 0x9B, CHR 0xB4, CHR 0xE7,
      CHR 0xB2, CHR 0xBE, CHR 0xE7, CHR 0xBB, CHR 0x86, CHR 0xE7, CHR 0x9A, CHR 0x84, CHR 0xE6,
      CHR 0x90, CHR 0x9C, CHR 0xE7, CHR 0xB4, CHR 0xA2, CHR 0xE6, CHR 0x9F, CHR 0xA5, CHR 0xE8,
      CHR 0xAF, CHR 0xA2, CHR 0xE4, CHR 0xBB, CHR 0xA5, CHR 0xE6, CHR 0x9F, CHR 0xA5, CHR 0xE6,
      CHR 0x89, CHR 0xBE, CHR 0xE7, CHR 0xBC, CHR 0xBA, CHR 0xE5, CHR 0xA4, CHR 0xB1, CHR 0xE7,
      CHR 0x9A, CHR 0x84, CHR 0xE4, CHR 0xBF, CHR 0xA1, CHR 0xE6, CHR 0x81, CHR 0xAF, CHR 0xE3,
      CHR 0x80, CHR 0x82, CHR 0xE4, CHR 0xB8, CHR 0x8D, CHR 0xE8, CHR 0xA6, CHR 0x81, CHR 0xE6,
      CHR 0xB7, CHR 0xBB, CHR 0xE5, CHR 0x8A, CHR 0xA0, CHR 0xE4, CHR 0xBB, CHR 0xBB, CHR 0xE4,
      CHR 0xBD, CHR 0x95, CHR 0xE5, CHR 0x85, CHR 0xB6, CHR 0xE4, CHR 0xBB, CHR 0x96, CHR 0xE6,
      CHR 0x96, CHR 0x87, CHR 0xE6, CHR 0x9C, CHR 0xAC, CHR 0xE3, CHR 0x80, CHR 0x82]"

definition wiki_web :: string where
  "wiki_web =
     [CHR 0xE7, CHR 0xBD, CHR 0x91, CHR 0xE7, CHR 0xBB, CHR 0x9C, CHR 0xE6, CHR 0x90, CHR 0x9C,
      CHR 0xE7, CHR 0xB4, CHR 0xA2, CHR 0xE7, CHR 0xBB, CHR 0x93, CHR 0xE6, CHR 0x9E, CHR 0x9C] @
     '':'' @
     [CHR 0x0A]"

definition wiki_wikipedia :: string where
  "wiki_wikipedia =
     [CHR 0x0A, CHR 0x0A, CHR 0xE7, CHR 0xBB, CHR 0xB4, CHR 0xE5, CHR 0x9F, CHR 0xBA, CHR 0xE7,
      CHR 0x99, CHR 0xBE, CHR 0xE7, CHR 0xA7, CHR 0x91, CHR 0xE7, CHR 0xBB, CHR 0x93, CHR 0xE6,
      CHR 0x9E, CHR 0x9C] @
     '':'' @
     [CHR 0x0A]"

text \<open>
  Lines 88--99: the prompt, cut after 80000 bytes with a marker when it is longer.
  Line 169: the combined text.
\<close>

definition reflection_prompt :: "string \<Rightarrow> string \<Rightarrow> string" where
  "reflection_prompt query accumulatedResults =
     (let reflectionPrompt =
            prompt_query @ query @ prompt_results @ accumulatedResults @ prompt_question
      in if length reflectionPrompt > 80000
         then take 80000 reflectionPrompt @ [CHR 0x0A] @ ''...(truncated)''
         else reflectionPrompt)"

definition wikipedia_format :: "string \<Rightarrow> string \<Rightarrow> string" where
  "wikipedia_format accumulatedResults wikiResult =
     wiki_web @ accumulatedResults @ wiki_wikipedia @ wikiResult"

subsection \<open>The reflection loop (lines 82--164)\<close>

definition maxIterations :: nat where
  "maxIterations = 3"

text \<open>
  A Go function either returns or panics; \<^verbatim>\<open>resp.Choices[0]\<close> panics on a response
  without choices.
\<close>

datatype 'a go_result = Panic | Return 'a

text \<open>
  The body of the loop (lines 87--163) for the current \<^verbatim>\<open>accumulatedResults\<close>.
  \<open>Inl\<close>: the loop is left, by \<^verbatim>\<open>break\<close> with the accumulated text or by a panic.
  \<open>Inr\<close>: the body ran to its end, with the new value of \<^verbatim>\<open>accumulatedResults\<close>.
\<close>

definition reflection_round ::
  "'w search_env \<Rightarrow> string \<Rightarrow> string \<Rightarrow> 'w \<times> call list \<Rightarrow>
     (string go_result + string) \<times> 'w \<times> call list" where
  "reflection_round env query accumulatedResults st =
     (let ((choices, err), st1) = chat env (reflection_prompt query accumulatedResults) st
      in (case err of
            Some e \<Rightarrow> (Inl (Return accumulatedResults), st1)
          | None \<Rightarrow>
              (case choices of
                 [] \<Rightarrow> (Inl Panic, st1)
               | content # _ \<Rightarrow>
                   (let decision = TrimSpace content
                    in if Contains (ToUpper decision) ''SUFFICIENT'' then
                         (Inl (Return accumulatedResults), st1)
                       else
                         (let newQuery = Trim decision [CHR 0x22, CHR 0x27];
                              ((newResults, err), st2) = tavily env newQuery st1;
                              ((newResults, err), st3) =
                                (case err of
                                   Some _ \<Rightarrow> duckduckgo env newQuery st2
                                 | None \<Rightarrow> ((newResults, err), st2))
                          in (case err of
                                None \<Rightarrow>
                                  (Inr (accumulatedResults @ [CHR 0x0A, CHR 0x0A] @
                                        ''--- Additional Search Results ---'' @ [CHR 0x0A] @
                                        newResults), st3)
                              | Some _ \<Rightarrow> (Inr accumulatedResults, st3)))))))"

text \<open>
  The loop from the iteration \<open>i\<close> on; it returns the final value of
  \<^verbatim>\<open>accumulatedResults\<close>.
\<close>

function reflection_loop ::
  "'w search_env \<Rightarrow> string \<Rightarrow> nat \<Rightarrow> string \<Rightarrow> 'w \<times> call list \<Rightarrow>
     string go_result \<times> 'w \<times> call list" where
  "reflection_loop env query i accumulatedResults st =
     (if i < maxIterations then
        (case reflection_round env query accumulatedResults st of
           (Inl stop, st') \<Rightarrow> (stop, st')
         | (Inr accumulatedResults', st') \<Rightarrow>
             reflection_loop env query (i + 1) accumulatedResults' st')
      else (Return accumulatedResults, st))"
  by pat_completeness auto
termination
  by (relation "measure (\<lambda>(env, query, i, acc, st). maxIterations - i)") auto

declare reflection_loop.simps [simp del]

subsection \<open>Execute (lines 41--217)\<close>

text \<open>
  Lines 166--217, after the loop: Wikipedia is asked, its text is added when it answers
  with a non-empty text, and the successful result is returned with a fresh metadata map.
  Lines 172--207 only build a log line.
\<close>

definition search_finish ::
  "'w search_env \<Rightarrow> string \<Rightarrow> string \<Rightarrow> heap \<times> 'w \<times> call list \<Rightarrow>
     (Result \<times> go_error option) go_result \<times> heap \<times> 'w \<times> call list" where
  "search_finish env query accumulatedResults hst =
     (let ((wikiResult, wikiErr), st) = wikipedia env query (snd hst);
          accumulatedResults =
            (if wikiErr = None \<and> wikiResult \<noteq> [] then wikipedia_format accumulatedResults wikiResult
             else accumulatedResults);
          (a, h) = make_map (fst hst);
          h = map_store h a ''query'' (PString query)
      in (Return (\<lparr>TaskType = TaskTypeSearch, Success = True, Output = accumulatedResults,
                    Error = [], Metadata = Some a, NewTasks = []\<rparr>, None), h, st))"

text \<open>Lines 50--53: the query is the string parameter \<open>query\<close>, else the description.\<close>

definition search_query :: "heap \<Rightarrow> Task \<Rightarrow> string" where
  "search_query h task =
     (case param h (Parameters task) ''query'' of
        Some (PString q) \<Rightarrow> q
      | _ \<Rightarrow> Description task)"

definition SearchExecute ::
  "'w search_env \<Rightarrow> Task \<Rightarrow> heap \<times> 'w \<times> call list \<Rightarrow>
     (Result \<times> go_error option) go_result \<times> heap \<times> 'w \<times> call list" where
  "SearchExecute env task hst =
     (let query = search_query (fst hst) task;
          ((searchResult, err), st) = tavily env query (snd hst);
          ((searchResult, err), st) =
            (case err of
               Some _ \<Rightarrow> duckduckgo env query st
             | None \<Rightarrow> ((searchResult, err), st))
      in (case err of
            Some e \<Rightarrow>
              (Return (\<lparr>TaskType = TaskTypeSearch, Success = False, Output = [], Error = e,
                         Metadata = None, NewTasks = []\<rparr>, Some e), fst hst, st)
          | None \<Rightarrow>
              (case reflection_loop env query 0 searchResult st of
                 (Panic, st') \<Rightarrow> (Panic, fst hst, st')
               | (Return accumulatedResults, st') \<Rightarrow>
                   search_finish env query accumulatedResults (fst hst, st'))))"

section \<open>Plan review (agent/agent.go, PlanWithReview)\<close>

text \<open>
  \<^verbatim>\<open>Plan\<close> asks the language model for a plan and decodes the answer; here it is any
  function of the goal and the world that returns a plan or an error.  \<^verbatim>\<open>ReviewPlan\<close> is
  the reviewer behind the interaction handler; the handler's other methods,
  \<^verbatim>\<open>ConfirmPodcastGeneration\<close> and \<^verbatim>\<open>Log\<close>, do not steer the review.  Both calls are
  recorded, with what they returned, in the order of the calls.
\<close>

record 'w InteractionHandler =
  ReviewPlan :: "Plan \<Rightarrow> 'w \<Rightarrow> (string \<times> go_error option) \<times> 'w"

datatype review_event =
    PlanCalled string "go_error + Plan"
  | ReviewCalled Plan string "go_error option"

datatype plan_error =
    PlanError go_error           \<comment> \<open>the error of the first \<^verbatim>\<open>Plan\<close>, returned as it is\<close>
  | PlanReviewFailed go_error    \<comment> \<open>\<^verbatim>\<open>plan review failed: %w\<close>\<close>
  | RePlanningFailed go_error    \<comment> \<open>\<^verbatim>\<open>re-planning failed: %w\<close>\<close>

definition call_Plan ::
  "(string \<Rightarrow> 'w \<Rightarrow> (go_error + Plan) \<times> 'w) \<Rightarrow> string \<Rightarrow> 'w \<times> review_event list \<Rightarrow>
     (go_error + Plan) \<times> 'w \<times> review_event list" where
  "call_Plan planner goal st =
     (case planner goal (fst st) of (r, w') \<Rightarrow> (r, w', snd st @ [PlanCalled goal r]))"

definition call_ReviewPlan ::
  "'w InteractionHandler \<Rightarrow> Plan \<Rightarrow> 'w \<times> review_event list \<Rightarrow>
     (string \<times> go_error option) \<times> 'w \<times> review_event list" where
  "call_ReviewPlan handler plan st =
     (case ReviewPlan handler plan (fst st) of
        ((modification, err), w') \<Rightarrow>
          ((modification, err), w', snd st @ [ReviewCalled plan modification err]))"

text \<open>
  Lines 199--220.  The loop has no bound: a reviewer who keeps asking for changes keeps
  it running.
\<close>

partial_function (option) review_loop ::
  "(string \<Rightarrow> 'w \<Rightarrow> (go_error + Plan) \<times> 'w) \<Rightarrow> 'w InteractionHandler \<Rightarrow> Plan \<Rightarrow>
     'w \<times> review_event list \<Rightarrow> ((plan_error + Plan) \<times> 'w \<times> review_event list) option" where
  "review_loop planner handler plan st =
     (case call_ReviewPlan handler plan st of
        ((modification, Some err), st1) \<Rightarrow> Some (Inl (PlanReviewFailed err), st1)
      | ((modification, None), st1) \<Rightarrow>
          (if modification = [] then Some (Inr plan, st1)
           else
             (case call_Plan planner modification st1 of
                (Inl err, st2) \<Rightarrow> Some (Inl (RePlanningFailed err), st2)
              | (Inr plan', st2) \<Rightarrow> review_loop planner handler plan' st2)))"

text \<open>Lines 186--223; the handler is \<^term>\<open>None\<close> when the agent has none.\<close>

definition PlanWithReview ::
  "(string \<Rightarrow> 'w \<Rightarrow> (go_error + Plan) \<times> 'w) \<Rightarrow> 'w InteractionHandler option \<Rightarrow> string \<Rightarrow>
     'w \<times> review_event list \<Rightarrow> ((plan_error + Plan) \<times> 'w \<times> review_event list) option" where
  "PlanWithReview planner interactionHandler userRequest st =
     (case call_Plan planner userRequest st of
        (Inl err, st1) \<Rightarrow> Some (Inl (PlanError err), st1)
      | (Inr plan, st1) \<Rightarrow>
          (case interactionHandler of
             None \<Rightarrow> Some (Inr plan, st1)
           | Some handler \<Rightarrow> review_loop planner handler plan st1))"

section \<open>Example agent for the concrete runs\<close>

text \<open>
  Four subagents over a world without state: \<open>A\<close> succeeds and returns one new task of
  type \<open>B\<close>; \<open>B\<close> succeeds; \<open>F\<close> reports a failure (\<open>success = false\<close>) and
  also carries a new task; \<open>E\<close> returns a transport error.  No subagent is registered
  for any other type.
\<close>

definition heap0 :: heap where
  "heap0 = \<lparr>cells = (\<lambda>a. Map.empty), arrays = (\<lambda>a. []), next_addr = 0,
             newcap = (\<lambda>c n. 2 * c)\<rparr>"

definition ex_task :: "TaskType \<Rightarrow> Task" where
  "ex_task ty = \<lparr>Type = ty, Description = ''d'', Parameters = None\<rparr>"

definition ex_result :: "bool \<Rightarrow> string \<Rightarrow> Task list \<Rightarrow> Task \<Rightarrow> Result" where
  "ex_result ok err new task =
     \<lparr>TaskType = Type task, Success = ok, Output = ''out'', Error = err, Metadata = None, NewTasks = new\<rparr>"

definition ex_subagent :: "bool \<Rightarrow> string \<Rightarrow> Task list \<Rightarrow> go_error option \<Rightarrow> unit Subagent" where
  "ex_subagent ok err new terr = (\<lambda>task hw. ((ex_result ok err new task, terr), hw))"

definition ex_agent :: "unit PlanningAgent" where
  "ex_agent =
     \<lparr>messages = [\<lparr>Role = ''user'', Content = ''hi''\<rparr>],
      subagents =
        [''A'' \<mapsto> ex_subagent True [] [ex_task ''B''] None,
         ''B'' \<mapsto> ex_subagent True [] [] None,
         ''F'' \<mapsto> ex_subagent False ''boom'' [ex_task ''B''] None,
         ''E'' \<mapsto> ex_subagent False [] [] (Some ''timeout'')]\<rparr>"

definition ex_plan :: "TaskType list \<Rightarrow> Plan" where
  "ex_plan tys = \<lparr>Tasks = map ex_task tys, PlanDescription = ''p''\<rparr>"

text \<open>
  A plan whose second task has a parameter map of its own, at address 0, holding the
  value \<open>v\<close> under \<open>context\<close>; the array at address 0 holds the one string \<open>own\<close>, and
  \<open>own_slice\<close> is the slice of it.  \<open>ctx_state v\<close> is the state of the loop after the
  first task has run.
\<close>

definition ctx_task :: Task where
  "ctx_task = \<lparr>Type = ''B'', Description = ''d'', Parameters = Some 0\<rparr>"

definition own_slice :: gslice where
  "own_slice = \<lparr>sl_arr = 0, sl_off = 0, sl_len = 1, sl_cap = 1\<rparr>"

definition ctx_heap :: "pvalue \<Rightarrow> heap" where
  "ctx_heap v =
     \<lparr>cells = (\<lambda>a. Map.empty)(0 := [''context'' \<mapsto> v]),
      arrays = (\<lambda>a. [])(0 := [''own'']), next_addr = 1, newcap = (\<lambda>c n. 2 * c)\<rparr>"

definition ctx_plan :: Plan where
  "ctx_plan = \<lparr>Tasks = [ex_task ''B'', ctx_task], PlanDescription = ''p''\<rparr>"

definition ctx_state :: "pvalue \<Rightarrow> unit exec_state" where
  "ctx_state v = the (exec_steps ex_agent 1 (init_state ctx_plan (ctx_heap v) ()))"

text \<open>
  A subagent that overwrites the first element of the context slice it is handed
  (\<^verbatim>\<open>cs[0] = "X"\<close>) and then succeeds, in an agent with the subagent \<open>B\<close> of above;
  \<open>writer_state\<close> is the state after the three tasks \<open>B\<close>, \<open>W\<close>, \<open>B\<close> have run.
\<close>

definition writer_subagent :: "unit Subagent" where
  "writer_subagent =
     (\<lambda>task (h, w).
        ((ex_result True [] [] task, None),
         (case param h (Parameters task) ''context'' of
            Some (PStrings cs) \<Rightarrow>
              (if sl_len cs > 0
               then h\<lparr>arrays := (arrays h)(sl_arr cs := (arrays h (sl_arr cs))[sl_off cs := ''X''])\<rparr>
               else h)
          | _ \<Rightarrow> h),
         w))"

definition writer_agent :: "unit PlanningAgent" where
  "writer_agent =
     \<lparr>messages = [],
      subagents = [''B'' \<mapsto> ex_subagent True [] [] None, ''W'' \<mapsto> writer_subagent]\<rparr>"

definition writer_state :: "unit exec_state" where
  "writer_state =
     the (exec_steps writer_agent 3 (init_state (ex_plan [''B'', ''W'', ''B'']) heap0 ()))"

text \<open>
  Collaborators of the search subagent that answer every call in the same way, over a
  world without state.
\<close>

definition ex_env ::
  "string \<times> go_error option \<Rightarrow> string \<times> go_error option \<Rightarrow> string list \<times> go_error option \<Rightarrow>
     unit search_env" where
  "ex_env tav ddg llm =
     \<lparr>TavilySearch = (\<lambda>q w. (tav, w)),
      DuckDuckGoSearch = (\<lambda>q w. (ddg, w)),
      WikipediaSearch = (\<lambda>q w. ((''wiki'', None), w)),
      CreateChatCompletion = (\<lambda>p w. (llm, w))\<rparr>"

text \<open>
  Collaborators over a world that counts the evaluation calls: Tavily and Wikipedia are
  down, DuckDuckGo answers, and the language model asks for more at the first call and
  fails afterwards.
\<close>

definition ex_env_fallback :: "nat search_env" where
  "ex_env_fallback =
     \<lparr>TavilySearch = (\<lambda>q w. (([], Some ''tavily down''), w)),
      DuckDuckGoSearch = (\<lambda>q w. ((''d1'', None), w)),
      WikipediaSearch = (\<lambda>q w. (([], Some ''wikipedia down''), w)),
      CreateChatCompletion =
        (\<lambda>p w. (if w = 0 then ([''more detail''], None) else ([], Some ''timeout''), w + 1))\<rparr>"

text \<open>
  A planner that answers a goal with the plan of one task, of the type named by the goal,
  over a world that counts the reviews; a reviewer who asks for \<open>SEARCH\<close> at the first
  review and approves afterwards; a reviewer who rejects.
\<close>

definition ex_planner :: "string \<Rightarrow> nat \<Rightarrow> (go_error + Plan) \<times> nat" where
  "ex_planner goal w = (Inr (ex_plan [goal]), w)"

definition ex_reviewer :: "nat InteractionHandler" where
  "ex_reviewer = \<lparr>ReviewPlan = (\<lambda>p w. ((if w = 0 then ''SEARCH'' else [], None), Suc w))\<rparr>"

definition ex_rejecter :: "nat InteractionHandler" where
  "ex_rejecter = \<lparr>ReviewPlan = (\<lambda>p w. (([], Some ''plan rejected by user''), Suc w))\<rparr>"

section \<open>Auxiliary predicates of the proofs\<close>

text \<open>
  Two loop invariants.  The cursor equals the number of recorded results and never passes
  the end of the sequence.  \<^verbatim>\<open>contextData\<close> starts at the front of its array, its
  elements are all backed by the array, and they are one entry per successful result.
\<close>

definition exec_inv :: "'w exec_state \<Rightarrow> bool" where
  "exec_inv s \<longleftrightarrow>
     loop_i s = length (results s) \<and> loop_i s \<le> length (plan_tasks s)"

definition acc_inv :: "'w exec_state \<Rightarrow> bool" where
  "acc_inv s \<longleftrightarrow>
     sl_off (contextData s) = 0 \<and>
     sl_len (contextData s) = length (slice_val (hp s) (contextData s)) \<and>
     slice_val (hp s) (contextData s) =
       map (\<lambda>(t, r). context_entry (Type t) (Output r))
           (filter (\<lambda>(t, r). Success r) (zip (plan_tasks s) (results s)))"

text \<open>
  \<open>stopped ag s out\<close>: from \<open>s\<close> the loop runs some number of iterations and then
  returns \<open>out\<close>.
\<close>

definition stopped :: "'w PlanningAgent \<Rightarrow> 'w exec_state \<Rightarrow> 'w outcome \<Rightarrow> bool" where
  "stopped ag s out \<longleftrightarrow>
     (\<exists>n s'. exec_steps ag n s = Some s' \<and>
        (if loop_i s' < length (plan_tasks s')
         then \<exists>e s''. exec_step ag s' = Inl (e, s'') \<and> out = Aborted e s''
         else out = Finished s'))"

text \<open>
  Kinds of recorded calls, and the text that the searches recorded in a log add to
  \<^verbatim>\<open>accumulatedResults\<close>: one block for every search that answered.
\<close>

fun is_chat :: "call \<Rightarrow> bool" where
  "is_chat (CallChatCompletion p r) = True"
| "is_chat c = False"

fun is_tavily :: "call \<Rightarrow> bool" where
  "is_tavily (CallTavily q r) = True"
| "is_tavily c = False"

fun is_wikipedia :: "call \<Rightarrow> bool" where
  "is_wikipedia (CallWikipedia q r) = True"
| "is_wikipedia c = False"

definition additional_results :: "string \<Rightarrow> string" where
  "additional_results newResults =
     [CHR 0x0A, CHR 0x0A] @ ''--- Additional Search Results ---'' @ [CHR 0x0A] @ newResults"

fun additions :: "call list \<Rightarrow> string" where
  "additions [] = []"
| "additions (CallTavily q (newResults, None) # cs) = additional_results newResults @ additions cs"
| "additions (CallDuckDuckGo q (newResults, None) # cs) = additional_results newResults @ additions cs"
| "additions (c # cs) = additions cs"

text \<open>
  Of a log of the review: the goals of the \<^verbatim>\<open>Plan\<close> calls, the non-empty modification
  texts returned without error, and the plan of the last successful \<^verbatim>\<open>Plan\<close> call
  (\<open>p\<close> when there is none).  \<open>reviewed plan st out\<close> relates the outcome of the review
  loop to the calls it made.
\<close>

fun plan_goals :: "review_event list \<Rightarrow> string list" where
  "plan_goals [] = []"
| "plan_goals (PlanCalled goal r # es) = goal # plan_goals es"
| "plan_goals (ReviewCalled p m e # es) = plan_goals es"

fun modification_texts :: "review_event list \<Rightarrow> string list" where
  "modification_texts [] = []"
| "modification_texts (ReviewCalled p m e # es) =
     (if e = None \<and> m \<noteq> [] then m # modification_texts es else modification_texts es)"
| "modification_texts (PlanCalled goal r # es) = modification_texts es"

fun last_plan :: "Plan \<Rightarrow> review_event list \<Rightarrow> Plan" where
  "last_plan p [] = p"
| "last_plan p (PlanCalled goal (Inr p') # es) = last_plan p' es"
| "last_plan p (PlanCalled goal (Inl err) # es) = last_plan p es"
| "last_plan p (ReviewCalled q m e # es) = last_plan p es"

definition reviewed ::
  "Plan \<Rightarrow> 'w \<times> review_event list \<Rightarrow> ((plan_error + Plan) \<times> 'w \<times> review_event list) \<Rightarrow> bool" where
  "reviewed plan st out \<longleftrightarrow>
     (\<exists>new. snd (snd out) = snd st @ new \<and> plan_goals new = modification_texts new \<and>
        (case fst out of Inr final \<Rightarrow> final = last_plan plan new | Inl err \<Rightarrow> True))"

section \<open>Lemmas about the executor\<close>

lemma prepare_task_fields:
  "Type (fst (prepare_task msgs ctx t h)) = Type t"
  "Description (fst (prepare_task msgs ctx t h)) = Description t"
  by (auto simp: prepare_task_def Let_def make_map_def split: option.splits prod.splits)

lemma dispatch_Type:
  "dispatch ag s = ((task, h), r) \<Longrightarrow> Type task = Type (plan_tasks s ! loop_i s)"
  unfolding dispatch_def Let_def
  by (metis (no_types, lifting) prepare_task_fields(1) case_prod_beta fst_conv)

lemma insert_new_tasks_eq:
  "insert_new_tasks i ts new = take (Suc i) ts @ new @ drop (Suc i) ts"
  by (simp add: insert_new_tasks_def)

lemma go_append_val:
  assumes "sl_off sl + sl_len sl \<le> length (arrays h (sl_arr sl))"
  shows "slice_val (snd (go_append h sl xs)) (fst (go_append h sl xs)) = slice_val h sl @ xs"
    and "sl_len (fst (go_append h sl xs)) = sl_len sl + length xs"
proof -
  let ?a = "arrays h (sl_arr sl)"
  let ?k = "sl_off sl + sl_len sl"
  have old: "drop (sl_off sl) (take ?k ?a) = slice_val h sl"
    by (simp add: slice_val_def drop_take)
  have len: "length (slice_val h sl) = sl_len sl" using assms by (simp add: slice_val_def)
  show "sl_len (fst (go_append h sl xs)) = sl_len sl + length xs"
    by (simp add: go_append_def Let_def)
  show "slice_val (snd (go_append h sl xs)) (fst (go_append h sl xs)) = slice_val h sl @ xs"
  proof (cases "sl_len sl + length xs \<le> sl_cap sl")
    case False
    then show ?thesis using len by (simp add: go_append_def Let_def slice_val_def)
  next
    case True
    have "drop (sl_off sl) (take ?k ?a @ xs @ drop (?k + length xs) ?a) =
          slice_val h sl @ xs @ drop (?k + length xs) ?a"
      using assms old by simp
    then show ?thesis using True len
      by (simp add: go_append_def Let_def slice_val_def[of _ "sl\<lparr>sl_len := sl_len sl + length xs\<rparr>"])
  qed
qed

lemma go_append_off: "sl_off sl = 0 \<Longrightarrow> sl_off (fst (go_append h sl xs)) = 0"
  by (simp add: go_append_def Let_def)

lemma slice_val_cells:
  "slice_val (map_store h a k v) sl = slice_val h sl"
  "slice_val (snd (make_map h)) sl = slice_val h sl"
  by (simp_all add: slice_val_def map_store_def make_map_def)

lemma arrays_cells:
  "arrays (map_store h a k v) = arrays h"
  "arrays (snd (make_map h)) = arrays h"
  by (simp_all add: map_store_def make_map_def)

lemma map_load_store: "map_load (map_store h a k v) a k = Some v"
  by (simp add: map_load_def map_store_def)

text \<open>
  Lines 259--270 for every task and heap.  With a non-empty \<^verbatim>\<open>contextData\<close>: a task
  whose \<open>context\<close> is a \<^verbatim>\<open>[]string\<close> (with its elements in its array) gets its own
  elements followed by the accumulated ones; any other task gets the slice
  \<^verbatim>\<open>contextData\<close> itself, and no array is written.  With an empty \<^verbatim>\<open>contextData\<close> the
  parameter stays as it is.
\<close>

lemma prepare_task_context:
  assumes p: "prepare_task msgs ctx t h0 = (task, h)"
  shows "(sl_len ctx > 0 \<longrightarrow>
            (case param h0 (Parameters t) ''context'' of
               Some (PStrings own) \<Rightarrow>
                 sl_off own + sl_len own \<le> length (arrays h0 (sl_arr own)) \<longrightarrow>
                 context_strings h (Parameters task) = Some (slice_val h0 own @ slice_val h0 ctx)
             | _ \<Rightarrow> param h (Parameters task) ''context'' = Some (PStrings ctx) \<and>
                    arrays h = arrays h0)) \<and>
         (sl_len ctx = 0 \<longrightarrow>
            param h (Parameters task) ''context'' = param h0 (Parameters t) ''context'' \<and>
            arrays h = arrays h0)"
proof (cases "Parameters t")
  case None
  with p show ?thesis
    by (auto simp: prepare_task_def make_map_def map_store_def map_load_def param_def Let_def)
next
  case (Some a)
  let ?h2 = "map_store h0 a ''global_context'' (PString (global_context msgs))"
  show ?thesis
  proof (cases "\<exists>own. cells h0 a ''context'' = Some (PStrings own)")
    case False
    with p Some show ?thesis
      by (auto simp: prepare_task_def map_store_def map_load_def param_def Let_def
               split: option.splits pvalue.splits)
  next
    case True
    then obtain own where own: "cells h0 a ''context'' = Some (PStrings own)" by blast
    have ld: "map_load ?h2 a ''context'' = Some (PStrings own)"
      using own by (simp add: map_load_def map_store_def)
    show ?thesis
    proof (cases "sl_len ctx > 0")
      case False
      with p Some own show ?thesis
        by (auto simp: prepare_task_def map_store_def map_load_def param_def Let_def)
    next
      case True
      let ?g = "go_append ?h2 own (slice_val ?h2 ctx)"
      from p Some ld True have task: "task = t"
        and h: "h = map_store (snd ?g) a ''context'' (PStrings (fst ?g))"
        by (simp_all add: prepare_task_def Let_def split_beta)
      have "context_strings h (Parameters task) = Some (slice_val h0 own @ slice_val h0 ctx)"
        if "sl_off own + sl_len own \<le> length (arrays h0 (sl_arr own))"
      proof -
        from that have "sl_off own + sl_len own \<le> length (arrays ?h2 (sl_arr own))"
          by (simp add: arrays_cells)
        from go_append_val(1)[OF this, of "slice_val ?h2 ctx"]
        have "slice_val (snd ?g) (fst ?g) = slice_val h0 own @ slice_val h0 ctx"
          by (simp add: slice_val_cells)
        then show ?thesis
          by (simp add: context_strings_def param_def task Some h map_load_store slice_val_cells)
      qed
      with True own Some show ?thesis by (simp add: param_def map_load_def)
    qed
  qed
qed

lemma exec_step_ok:
  assumes "dispatch ag s = ((task, h), Some ((r, None), h', w'))"
  shows "exec_step ag s =
          Inr (s\<lparr>hp := (if Success r
                        then snd (go_append h' (contextData s)
                                    [context_entry (Type (plan_tasks s ! loop_i s)) (Output r)])
                        else h'),
                 world := w', results := results s @ [r],
                 plan_tasks := (if Success r \<and> NewTasks r \<noteq> []
                                then take (Suc (loop_i s)) (plan_tasks s) @ NewTasks r @ drop (Suc (loop_i s)) (plan_tasks s)
                                else plan_tasks s),
                 contextData := (if Success r
                                 then fst (go_append h' (contextData s)
                                             [context_entry (Type (plan_tasks s ! loop_i s)) (Output r)])
                                 else contextData s),
                 loop_i := Suc (loop_i s)\<rparr>)"
  using assms dispatch_Type[OF assms]
  by (simp add: exec_step_def Let_def insert_new_tasks_eq split_beta)

lemma exec_step_unknown:
  assumes "dispatch ag s = ((task, h), None)"
  shows "exec_step ag s = Inl (UnknownTaskType (Type (plan_tasks s ! loop_i s)), s\<lparr>hp := h\<rparr>)"
  using assms dispatch_Type[OF assms]
  by (simp add: exec_step_def)

lemma exec_step_failed:
  assumes "dispatch ag s = ((task, h), Some ((r, Some e), h', w'))"
  shows "exec_step ag s = Inl (TaskFailed (Suc (loop_i s)) e, s\<lparr>hp := h', world := w'\<rparr>)"
  using assms by (simp add: exec_step_def)

lemma dispatch_cases:
  obtains (unknown) task h where "dispatch ag s = ((task, h), None)"
  | (failed) task h r e h' w' where "dispatch ag s = ((task, h), Some ((r, Some e), h', w'))"
  | (ok) task h r h' w' where "dispatch ag s = ((task, h), Some ((r, None), h', w'))"
proof (cases "dispatch ag s")
  case (Pair th ro)
  obtain task h where th: "th = (task, h)" by (cases th)
  show ?thesis
  proof (cases ro)
    case None
    with Pair th show ?thesis using unknown by simp
  next
    case (Some x)
    obtain r err h' w' where x: "x = ((r, err), h', w')" by (cases x) auto
    show ?thesis
    proof (cases err)
      case None
      with Pair th Some x show ?thesis using ok by simp
    next
      case (Some e)
      with Pair th \<open>ro = Some x\<close> x show ?thesis using failed by simp
    qed
  qed
qed

lemma exec_loop_steps:
  "exec_steps ag n s = Some s' \<Longrightarrow> exec_loop ag s = exec_loop ag s'"
proof (induction n arbitrary: s)
  case 0
  then show ?case by simp
next
  case (Suc n)
  then show ?case
    by (subst exec_loop.simps) (auto split: if_splits sum.splits)
qed

lemma stopped_now:
  "\<not> loop_i s < length (plan_tasks s) \<Longrightarrow> stopped ag s (Finished s)"
  "loop_i s < length (plan_tasks s) \<Longrightarrow> exec_step ag s = Inl (e, s'') \<Longrightarrow> stopped ag s (Aborted e s'')"
  unfolding stopped_def by (rule exI[of _ 0], simp)+

lemma stopped_later:
  assumes "loop_i s < length (plan_tasks s)" "exec_step ag s = Inr s1" "stopped ag s1 out"
  shows "stopped ag s out"
proof -
  from assms(3) obtain n s' where
    n: "exec_steps ag n s1 = Some s'" and
    fin: "(if loop_i s' < length (plan_tasks s')
           then \<exists>e s''. exec_step ag s' = Inl (e, s'') \<and> out = Aborted e s''
           else out = Finished s')"
    unfolding stopped_def by blast
  from n assms(1,2) have "exec_steps ag (Suc n) s = Some s'" by simp
  with fin show ?thesis unfolding stopped_def by blast
qed

lemma exec_loop_SomeD:
  assumes "exec_loop ag s = Some out"
  shows "stopped ag s out"
proof (rule exec_loop.raw_induct[where P = stopped, OF _ assms])
  fix loop' :: "'w PlanningAgent \<Rightarrow> 'w exec_state \<Rightarrow> 'w outcome option"
  fix ag s out
  assume IH: "\<And>ag s out. loop' ag s = Some out \<Longrightarrow> stopped ag s out"
  assume eq: "(if loop_i s < length (plan_tasks s)
      then case exec_step ag s of Inl (e, s') \<Rightarrow> Some (Aborted e s')
           | Inr s' \<Rightarrow> loop' ag s'
      else Some (Finished s)) = Some out"
  show "stopped ag s out"
  proof (cases "loop_i s < length (plan_tasks s)")
    case False
    with eq have "out = Finished s" by simp
    with False show ?thesis by (simp add: stopped_now)
  next
    case True
    show ?thesis
    proof (cases "exec_step ag s")
      case (Inl es)
      obtain e s'' where es: "es = (e, s'')" by (cases es)
      with eq True Inl have "out = Aborted e s''" by simp
      with True Inl es show ?thesis by (simp add: stopped_now)
    next
      case (Inr s1)
      with eq True have "loop' ag s1 = Some out" by simp
      from stopped_later[OF True Inr IH[OF this]] show ?thesis .
    qed
  qed
qed

lemma exec_step_Inr_cases:
  assumes "exec_step ag s = Inr s'"
  obtains task h r h' w' where "dispatch ag s = ((task, h), Some ((r, None), h', w'))"
proof (cases rule: dispatch_cases[of ag s])
  case (unknown task h)
  from exec_step_unknown[OF this] assms show ?thesis by simp
next
  case (failed task h r e h' w')
  from exec_step_failed[OF this] assms show ?thesis by simp
next
  case (ok task h r h' w')
  then show ?thesis using that by blast
qed

lemma exec_step_Inl_frame:
  assumes "exec_step ag s = Inl (e, s')"
  shows "results s' = results s \<and> plan_tasks s' = plan_tasks s \<and> contextData s' = contextData s
         \<and> loop_i s' = loop_i s"
proof (cases rule: dispatch_cases[of ag s])
  case (unknown task h)
  from exec_step_unknown[OF this] assms show ?thesis by auto
next
  case (failed task h r e h' w')
  from exec_step_failed[OF this] assms show ?thesis by auto
next
  case (ok task h r h' w')
  from exec_step_ok[OF this] assms show ?thesis by simp
qed

lemma zip_snoc_nth:
  assumes "length rs = i" "i < length ts"
  shows "zip (take (Suc i) ts @ rest) (rs @ [r]) = zip ts rs @ [(ts ! i, r)]"
proof -
  have "take (Suc i) ts = take i ts @ [ts ! i]"
    using assms(2) by (simp add: take_Suc_conv_app_nth)
  then have "zip (take (Suc i) ts @ rest) (rs @ [r]) = zip (take i ts @ ([ts ! i] @ rest)) (rs @ [r])"
    by simp
  also have "\<dots> = zip (take i ts) rs @ zip ([ts ! i] @ rest) [r]"
    using assms by (subst zip_append) auto
  also have "zip (take i ts) rs = zip ts rs"
  proof -
    have "length (zip ts rs) = i" using assms by simp
    then have "zip ts rs = take i (zip ts rs)" by simp
    also have "\<dots> = zip (take i ts) (take i rs)" by (simp add: take_zip)
    also have "take i rs = rs" using assms by simp
    finally show ?thesis by simp
  qed
  finally show ?thesis by simp
qed

lemma exec_step_zip:
  assumes inv: "exec_inv s" and lt: "loop_i s < length (plan_tasks s)"
    and d: "dispatch ag s = ((task, h), Some ((r, None), h', w'))"
    and step: "exec_step ag s = Inr s'"
  shows "zip (plan_tasks s') (results s') =
         zip (plan_tasks s) (results s) @ [(plan_tasks s ! loop_i s, r)]"
proof -
  let ?i = "loop_i s"
  let ?ts = "plan_tasks s"
  from inv have len: "length (results s) = ?i" by (simp add: exec_inv_def)
  note s' = exec_step_ok[OF d, unfolded step, simplified]
  have ts': "plan_tasks s' = take (Suc ?i) ?ts @ drop (Suc ?i) (plan_tasks s')"
    using lt by (simp add: s' min_def)
  have "zip (plan_tasks s') (results s') = zip (take (Suc ?i) ?ts @ drop (Suc ?i) (plan_tasks s')) (results s @ [r])"
    using ts' by (simp add: s')
  also have "\<dots> = zip ?ts (results s) @ [(?ts ! ?i, r)]"
    by (rule zip_snoc_nth[OF len lt])
  finally show ?thesis .
qed

lemma exec_inv_step:
  assumes inv: "exec_inv s" and lt: "loop_i s < length (plan_tasks s)"
    and step: "exec_step ag s = Inr s'"
  shows "exec_inv s'"
proof -
  from step obtain task h r h' w' where d: "dispatch ag s = ((task, h), Some ((r, None), h', w'))"
    by (rule exec_step_Inr_cases)
  note s' = exec_step_ok[OF d, unfolded step, simplified]
  from inv have len: "length (results s) = loop_i s" by (simp add: exec_inv_def)
  have "loop_i s' = length (results s')" using len by (simp add: s')
  moreover have "loop_i s' \<le> length (plan_tasks s')" using lt by (simp add: s')
  ultimately show ?thesis by (simp add: exec_inv_def)
qed

text \<open>
  The accumulator over one iteration that, up to the return of the subagent, leaves the
  elements accumulated so far as they were.
\<close>

lemma acc_inv_step:
  assumes inv: "exec_inv s" and acc: "acc_inv s" and lt: "loop_i s < length (plan_tasks s)"
    and step: "exec_step ag s = Inr s'"
    and same: "slice_val (dispatched_heap ag s) (contextData s) = slice_val (hp s) (contextData s)"
  shows "acc_inv s'"
proof -
  from step obtain task h r h' w' where d: "dispatch ag s = ((task, h), Some ((r, None), h', w'))"
    by (rule exec_step_Inr_cases)
  note s' = exec_step_ok[OF d, unfolded step, simplified]
  note z = exec_step_zip[OF inv lt d step]
  let ?e = "context_entry (Type (plan_tasks s ! loop_i s)) (Output r)"
  let ?entries = "\<lambda>s. map (\<lambda>(t, r). context_entry (Type t) (Output r))
                          (filter (\<lambda>(t, r). Success r) (zip (plan_tasks s) (results s)))"
  from d have dh: "dispatched_heap ag s = h'" by (simp add: dispatched_heap_def)
  from acc same dh have old: "slice_val h' (contextData s) = ?entries s"
    and len: "sl_len (contextData s) = length (slice_val h' (contextData s))"
    and off: "sl_off (contextData s) = 0"
    by (simp_all add: acc_inv_def)
  from len off have backed:
    "sl_off (contextData s) + sl_len (contextData s) \<le> length (arrays h' (sl_arr (contextData s)))"
    by (simp add: slice_val_def)
  show ?thesis
  proof (cases "Success r")
    case False
    then have "hp s' = h'" "contextData s' = contextData s" by (simp_all add: s')
    moreover from False have "?entries s' = ?entries s" unfolding z by simp
    ultimately show ?thesis using old len off unfolding acc_inv_def by simp
  next
    case True
    then have hp: "hp s' = snd (go_append h' (contextData s) [?e])"
      and cd: "contextData s' = fst (go_append h' (contextData s) [?e])" by (simp_all add: s')
    from True have "?entries s' = ?entries s @ [?e]" unfolding z by simp
    with go_append_val[OF backed, of "[?e]"] go_append_off[OF off, of h' "[?e]"] old len
    show ?thesis unfolding acc_inv_def hp cd by simp
  qed
qed

lemma exec_inv_steps:
  "exec_inv s \<Longrightarrow> exec_steps ag n s = Some s' \<Longrightarrow> exec_inv s'"
proof (induction n arbitrary: s)
  case 0
  then show ?case by simp
next
  case (Suc n)
  then show ?case
    by (auto split: if_splits sum.splits dest: exec_inv_step)
qed

lemma exec_inv_init: "exec_inv (init_state plan h w)"
  by (simp add: exec_inv_def init_state_def)

lemma acc_inv_init: "acc_inv (init_state plan h w)"
  by (simp add: acc_inv_def init_state_def nil_slice_def slice_val_def)

lemma exec_step_tasks:
  assumes lt: "loop_i s < length (plan_tasks s)" and step: "exec_step ag s = Inr s'"
  shows "loop_i s' = Suc (loop_i s)"
    and "loop_i s' \<le> length (plan_tasks s')"
    and "subseq (plan_tasks s) (plan_tasks s')"
    and "take (Suc (loop_i s)) (plan_tasks s') = take (Suc (loop_i s)) (plan_tasks s)"
    and "prefix (results s) (results s')"
proof -
  from step obtain task h r h' w' where d: "dispatch ag s = ((task, h), Some ((r, None), h', w'))"
    by (rule exec_step_Inr_cases)
  note s' = exec_step_ok[OF d, unfolded step, simplified]
  show "loop_i s' = Suc (loop_i s)" by (simp add: s')
  show "loop_i s' \<le> length (plan_tasks s')" using lt by (simp add: s')
  have "subseq (take (Suc (loop_i s)) (plan_tasks s) @ [] @ drop (Suc (loop_i s)) (plan_tasks s))
               (take (Suc (loop_i s)) (plan_tasks s) @ NewTasks r @ drop (Suc (loop_i s)) (plan_tasks s))"
    by (intro list_emb_append_mono subseq_order.order_refl) simp
  then show "subseq (plan_tasks s) (plan_tasks s')" by (simp add: s')
  show "take (Suc (loop_i s)) (plan_tasks s') = take (Suc (loop_i s)) (plan_tasks s)"
    using lt by (simp add: s' min_def)
  show "prefix (results s) (results s')" by (simp add: s')
qed

lemma exec_steps_tasks:
  assumes "exec_steps ag n s = Some s'"
  shows "loop_i s' = loop_i s + n \<and> subseq (plan_tasks s) (plan_tasks s') \<and>
         take (loop_i s) (plan_tasks s') = take (loop_i s) (plan_tasks s) \<and>
         prefix (results s) (results s')"
  using assms
proof (induction n arbitrary: s)
  case 0
  then show ?case by simp
next
  case (Suc n)
  from Suc.prems obtain s1 where lt: "loop_i s < length (plan_tasks s)"
    and step: "exec_step ag s = Inr s1" and rest: "exec_steps ag n s1 = Some s'"
    by (auto split: if_splits sum.splits)
  note st = exec_step_tasks[OF lt step]
  from Suc.IH[OF rest] have ih: "loop_i s' = loop_i s1 + n" "subseq (plan_tasks s1) (plan_tasks s')"
    "take (loop_i s1) (plan_tasks s') = take (loop_i s1) (plan_tasks s1)"
    "prefix (results s1) (results s')" by simp_all
  have "take (loop_i s) (plan_tasks s') = take (loop_i s) (take (Suc (loop_i s)) (plan_tasks s'))"
    by (simp add: min_def)
  also have "take (Suc (loop_i s)) (plan_tasks s') = take (Suc (loop_i s)) (plan_tasks s)"
    using ih(3) st(1,4) by simp
  finally have "take (loop_i s) (plan_tasks s') = take (loop_i s) (plan_tasks s)"
    by (simp add: min_def)
  moreover have "subseq (plan_tasks s) (plan_tasks s')"
    using st(3) ih(2) by (rule subseq_order.order_trans)
  moreover have "prefix (results s) (results s')"
    using st(5) ih(4) by (rule prefix_order.order_trans)
  ultimately show ?case using ih(1) st(1) by simp
qed

lemma stopped_results:
  assumes "stopped ag s out"
  shows "prefix (results s) (results (final_state out))"
proof -
  from assms obtain n s' where n: "exec_steps ag n s = Some s'" and
    fin: "(if loop_i s' < length (plan_tasks s')
           then \<exists>e s''. exec_step ag s' = Inl (e, s'') \<and> out = Aborted e s''
           else out = Finished s')"
    unfolding stopped_def by blast
  have p: "prefix (results s) (results s')" using exec_steps_tasks[OF n] by simp
  show ?thesis
  proof (cases "loop_i s' < length (plan_tasks s')")
    case True
    with fin obtain e s'' where "exec_step ag s' = Inl (e, s'')" "out = Aborted e s''" by auto
    with exec_step_Inl_frame[OF this(1)] p show ?thesis by simp
  next
    case False
    with fin p show ?thesis by simp
  qed
qed

lemma stopped_inv:
  assumes "stopped ag s out" "exec_inv s"
  shows "exec_inv (final_state out)"
proof -
  from assms obtain n s' where n: "exec_steps ag n s = Some s'" and
    fin: "(if loop_i s' < length (plan_tasks s')
           then \<exists>e s''. exec_step ag s' = Inl (e, s'') \<and> out = Aborted e s''
           else out = Finished s')"
    unfolding stopped_def by blast
  have p: "exec_inv s'" using exec_inv_steps[OF assms(2) n] .
  show ?thesis
  proof (cases "loop_i s' < length (plan_tasks s')")
    case True
    with fin obtain e s'' where "exec_step ag s' = Inl (e, s'')" "out = Aborted e s''" by auto
    with exec_step_Inl_frame[OF this(1)] p show ?thesis by (simp add: exec_inv_def)
  next
    case False
    with fin p show ?thesis by simp
  qed
qed

lemma exec_steps_snoc:
  assumes "exec_steps ag n s0 = Some s" "loop_i s < length (plan_tasks s)" "exec_step ag s = Inr s'"
  shows "exec_steps ag (Suc n) s0 = Some s'"
  using assms
proof (induction n arbitrary: s0)
  case 0
  then show ?case by simp
next
  case (Suc n)
  from Suc.prems(1) obtain s1 where lt: "loop_i s0 < length (plan_tasks s0)"
    and step: "exec_step ag s0 = Inr s1" and rest: "exec_steps ag n s1 = Some s"
    by (auto split: if_splits sum.splits)
  from Suc.IH[OF rest Suc.prems(2,3)] have "exec_steps ag (Suc n) s1 = Some s'" .
  with lt step show ?case by (simp del: exec_steps.simps(2) add: exec_steps.simps(2)[of ag "Suc n" s0])
qed

lemma exec_steps_add:
  "exec_steps ag (a + b) s =
     (case exec_steps ag a s of None \<Rightarrow> None | Some s' \<Rightarrow> exec_steps ag b s')"
  by (induction a arbitrary: s) (auto split: sum.splits)

lemma exec_steps_results_nth:
  assumes sj: "exec_steps ag j (init_state plan h0 w0) = Some s"
    and d: "dispatch ag s = ((task, h), Some ((r, None), h', w'))"
    and sn: "exec_steps ag n (init_state plan h0 w0) = Some sf"
    and jn: "j < n"
  shows "results sf ! j = r"
proof -
  let ?init = "init_state plan h0 w0"
  have inv: "exec_inv s" by (rule exec_inv_steps[OF exec_inv_init sj])
  have "loop_i s = loop_i ?init + j" using exec_steps_tasks[OF sj] by simp
  then have i: "loop_i s = j" by (simp add: init_state_def)
  with inv have len: "length (results s) = j" by (simp add: exec_inv_def)
  from jn obtain m where n: "n = j + Suc m" by (metis less_iff_Suc_add add_Suc_right)
  from sn have "exec_steps ag (j + Suc m) ?init = Some sf" unfolding n .
  then have rest: "exec_steps ag (Suc m) s = Some sf"
    unfolding exec_steps_add sj by (simp del: exec_steps.simps)
  then obtain s1 where step: "exec_step ag s = Inr s1" and rest': "exec_steps ag m s1 = Some sf"
    by (auto split: if_splits sum.splits)
  have "results s1 = results s @ [r]" using exec_step_ok[OF d] step by auto
  moreover have "prefix (results s1) (results sf)" using exec_steps_tasks[OF rest'] by simp
  ultimately obtain zs where "results sf = (results s @ [r]) @ zs" by (auto simp: prefix_def)
  with len show ?thesis by (simp add: nth_append)
qed

lemma exec_loop_finished:
  assumes "exec_steps ag n s = Some s'" "\<not> loop_i s' < length (plan_tasks s')"
  shows "exec_loop ag s = Some (Finished s')"
proof -
  have "exec_loop ag s' = Some (Finished s')"
    using assms(2) by (subst exec_loop.simps) simp
  with exec_loop_steps[OF assms(1)] show ?thesis by simp
qed

lemma exec_steps_SucD:
  assumes "exec_steps ag (Suc n) s0 = Some s'"
  obtains s where "exec_steps ag n s0 = Some s" "loop_i s < length (plan_tasks s)"
    "exec_step ag s = Inr s'"
proof -
  from assms have "exec_steps ag (n + Suc 0) s0 = Some s'" by (simp del: exec_steps.simps)
  then obtain s where n: "exec_steps ag n s0 = Some s" and one: "exec_steps ag (Suc 0) s = Some s'"
    unfolding exec_steps_add by (auto simp del: exec_steps.simps split: option.splits)
  from one have "loop_i s < length (plan_tasks s)" "exec_step ag s = Inr s'"
    by (auto split: if_splits sum.splits)
  with n show ?thesis by (rule that)
qed

text \<open>
  The accumulator in every state that a run reaches, when no step of the run changes,
  up to the return of its subagent, the elements accumulated before it.
\<close>

lemma acc_inv_steps:
  assumes same: "\<And>n s. exec_steps ag n s0 = Some s \<Longrightarrow> loop_i s < length (plan_tasks s) \<Longrightarrow>
                   slice_val (dispatched_heap ag s) (contextData s) = slice_val (hp s) (contextData s)"
    and inv: "exec_inv s0" and acc: "acc_inv s0"
  shows "exec_steps ag n s0 = Some s \<Longrightarrow> acc_inv s"
proof (induction n arbitrary: s)
  case 0
  with acc show ?case by simp
next
  case (Suc n)
  from Suc.prems obtain s1 where n: "exec_steps ag n s0 = Some s1"
    and lt: "loop_i s1 < length (plan_tasks s1)" and step: "exec_step ag s1 = Inr s"
    by (rule exec_steps_SucD)
  from acc_inv_step[OF exec_inv_steps[OF inv n] Suc.IH[OF n] lt step same[OF n lt]]
  show ?case .
qed

lemma exec_step_Inl_heap:
  assumes "exec_step ag s = Inl (e, s')"
  shows "hp s' = dispatched_heap ag s"
proof (cases rule: dispatch_cases[of ag s])
  case (unknown task h)
  from exec_step_unknown[OF this] assms unknown show ?thesis by (auto simp: dispatched_heap_def)
next
  case (failed task h r e h' w')
  from exec_step_failed[OF this] assms failed show ?thesis by (auto simp: dispatched_heap_def)
next
  case (ok task h r h' w')
  from exec_step_ok[OF this] assms show ?thesis by simp
qed

lemma stopped_acc_inv:
  assumes st: "stopped ag s0 out"
    and same: "\<And>n s. exec_steps ag n s0 = Some s \<Longrightarrow> loop_i s < length (plan_tasks s) \<Longrightarrow>
                   slice_val (dispatched_heap ag s) (contextData s) = slice_val (hp s) (contextData s)"
    and inv: "exec_inv s0" and acc: "acc_inv s0"
  shows "acc_inv (final_state out)"
proof -
  from st obtain n s' where n: "exec_steps ag n s0 = Some s'" and
    fin: "(if loop_i s' < length (plan_tasks s')
           then \<exists>e s''. exec_step ag s' = Inl (e, s'') \<and> out = Aborted e s''
           else out = Finished s')"
    unfolding stopped_def by blast
  have p: "acc_inv s'" using acc_inv_steps[OF same inv acc n] .
  show ?thesis
  proof (cases "loop_i s' < length (plan_tasks s')")
    case True
    with fin obtain e s'' where ab: "exec_step ag s' = Inl (e, s'')" "out = Aborted e s''" by auto
    from exec_step_Inl_frame[OF ab(1)] exec_step_Inl_heap[OF ab(1)] same[OF n True] p ab(2)
    show ?thesis by (simp add: acc_inv_def)
  next
    case False
    with fin p show ?thesis by simp
  qed
qed

lemmas ex_defs = heap0_def ex_task_def ex_result_def ex_subagent_def ex_agent_def ex_plan_def
  init_state_def dispatch_def prepare_task_def make_map_def map_store_def map_load_def
  nil_slice_def slice_val_def go_append_def

lemma ex_dispatch:
  "\<exists>task h. dispatch ex_agent (init_state (ex_plan [''A'', ''C'']) heap0 ()) =
      ((task, h), Some ((ex_result True [] [ex_task ''B''] (ex_task ''A''), None), h, ()))"
  by (simp add: ex_defs)

lemmas ex_run = exec_step_def ex_defs insert_new_tasks_def context_entry_def global_context_def
  ChatMessageRoleUser_def

lemmas ctx_run = ctx_state_def ctx_plan_def ctx_heap_def ctx_task_def own_slice_def param_def
  context_strings_def ex_run

lemmas writer_run = writer_state_def writer_agent_def writer_subagent_def param_def ex_run

section \<open>Lemmas about the search subagent\<close>

lemma chat_log: "chat env p st = (r, st') \<Longrightarrow> snd st' = snd st @ [CallChatCompletion p r]"
  by (auto simp: chat_def split: prod.splits)

lemma tavily_log: "tavily env q st = (r, st') \<Longrightarrow> snd st' = snd st @ [CallTavily q r]"
  by (auto simp: tavily_def split: prod.splits)

lemma duckduckgo_log: "duckduckgo env q st = (r, st') \<Longrightarrow> snd st' = snd st @ [CallDuckDuckGo q r]"
  by (auto simp: duckduckgo_def split: prod.splits)

lemma wikipedia_log: "wikipedia env q st = (r, st') \<Longrightarrow> snd st' = snd st @ [CallWikipedia q r]"
  by (auto simp: wikipedia_def split: prod.splits)

lemma additions_append: "additions (xs @ ys) = additions xs @ additions ys"
  by (induction xs rule: additions.induct) simp_all

text \<open>The three ways through the body.\<close>

lemma round_error:
  assumes "chat env (reflection_prompt query acc) st = ((choices, Some e), st1)"
  shows "reflection_round env query acc st = (Inl (Return acc), st1)"
  using assms by (simp add: reflection_round_def)

lemma round_sufficient:
  assumes "chat env (reflection_prompt query acc) st = ((content # more_choices, None), st1)"
    and "Contains (ToUpper (TrimSpace content)) ''SUFFICIENT''"
  shows "reflection_round env query acc st = (Inl (Return acc), st1)"
  using assms by (simp add: reflection_round_def)

lemma round_refine:
  assumes "chat env (reflection_prompt query acc) st = ((content # more_choices, None), st1)"
    and "\<not> Contains (ToUpper (TrimSpace content)) ''SUFFICIENT''"
  shows "\<exists>st' r fallback.
           reflection_round env query acc st =
             (Inr (acc @ additions (CallTavily (Trim (TrimSpace content) [CHR 0x22, CHR 0x27]) r # fallback)), st') \<and>
           snd st' = snd st1 @ CallTavily (Trim (TrimSpace content) [CHR 0x22, CHR 0x27]) r # fallback \<and>
           filter is_chat fallback = [] \<and> filter is_tavily fallback = [] \<and>
           filter is_wikipedia fallback = []"
proof -
  let ?q = "Trim (TrimSpace content) [CHR 0x22, CHR 0x27]"
  obtain r1 e1 st2 where t: "tavily env ?q st1 = ((r1, e1), st2)" by (metis surj_pair)
  note l2 = tavily_log[OF t]
  show ?thesis
  proof (cases e1)
    case None
    with assms t l2 have
      "reflection_round env query acc st = (Inr (acc @ additions (CallTavily ?q (r1, e1) # [])), st2)"
      "snd st2 = snd st1 @ CallTavily ?q (r1, e1) # []"
      by (simp_all add: reflection_round_def additional_results_def)
    then show ?thesis by (intro exI[of _ st2] exI[of _ "(r1, e1)"] exI[of _ "[]"]) simp
  next
    case (Some e)
    obtain r2 e2 st3 where d: "duckduckgo env ?q st2 = ((r2, e2), st3)" by (metis surj_pair)
    note l3 = duckduckgo_log[OF d]
    from assms t Some d l2 l3 have
      "reflection_round env query acc st =
         (Inr (acc @ additions (CallTavily ?q (r1, e1) # [CallDuckDuckGo ?q (r2, e2)])), st3)"
      "snd st3 = snd st1 @ CallTavily ?q (r1, e1) # [CallDuckDuckGo ?q (r2, e2)]"
      by (cases e2; simp add: reflection_round_def additional_results_def)+
    then show ?thesis
      by (intro exI[of _ st3] exI[of _ "(r1, e1)"] exI[of _ "[CallDuckDuckGo ?q (r2, e2)]"]) simp
  qed
qed

lemma round_cases:
  obtains (error) choices e st1 where "chat env (reflection_prompt query acc) st = ((choices, Some e), st1)"
  | (panic) st1 where "chat env (reflection_prompt query acc) st = (([], None), st1)"
  | (answer) content more_choices st1 where
      "chat env (reflection_prompt query acc) st = ((content # more_choices, None), st1)"
proof -
  obtain choices err st1 where c: "chat env (reflection_prompt query acc) st = ((choices, err), st1)"
    by (metis surj_pair)
  show ?thesis
  proof (cases err)
    case (Some e)
    with c error show ?thesis by simp
  next
    case None
    with c panic answer show ?thesis by (cases choices) simp_all
  qed
qed

lemma round_panic:
  assumes "chat env (reflection_prompt query acc) st = (([], None), st1)"
  shows "reflection_round env query acc st = (Inl Panic, st1)"
  using assms by (simp add: reflection_round_def)

text \<open>
  What one round adds to the log: the evaluation call alone when the round ends the loop,
  and the evaluation call with the searches of the round when it does not; then the text
  has grown by what these searches returned.
\<close>

lemma round_log:
  assumes "reflection_round env query acc st = (r, st')"
  shows "\<exists>new. snd st' = snd st @ new \<and> length (filter is_chat new) = 1 \<and>
           length (filter is_tavily new) = (case r of Inl _ \<Rightarrow> 0 | Inr _ \<Rightarrow> 1) \<and>
           filter is_wikipedia new = [] \<and>
           (case r of
              Inl stop \<Rightarrow> \<exists>p cr. new = [CallChatCompletion p cr] \<and>
                            (stop = Return acc \<or> stop = Panic \<and> cr = ([], None))
            | Inr acc' \<Rightarrow> acc' = acc @ additions new \<and>
                            (\<forall>p x e. CallChatCompletion p (x, Some e) \<notin> set new))"
proof (cases rule: round_cases[of env query acc st])
  case (error choices e st1)
  from round_error[OF error] assms chat_log[OF error] show ?thesis by auto
next
  case (panic st1)
  from round_panic[OF panic] assms chat_log[OF panic] show ?thesis by auto
next
  case (answer content more_choices st1)
  show ?thesis
  proof (cases "Contains (ToUpper (TrimSpace content)) ''SUFFICIENT''")
    case True
    from round_sufficient[OF answer True] assms chat_log[OF answer] show ?thesis by auto
  next
    case False
    let ?q = "Trim (TrimSpace content) [CHR 0x22, CHR 0x27]"
    let ?c = "CallChatCompletion (reflection_prompt query acc) (content # more_choices, None)"
    from round_refine[OF answer False] obtain st2 tr fallback where
      rd: "reflection_round env query acc st = (Inr (acc @ additions (CallTavily ?q tr # fallback)), st2)"
      and lg: "snd st2 = snd st1 @ CallTavily ?q tr # fallback"
      and fb: "filter is_chat fallback = []" "filter is_tavily fallback = []"
        "filter is_wikipedia fallback = []"
      by (elim exE conjE) (rule that)
    from rd assms have r: "r = Inr (acc @ additions (CallTavily ?q tr # fallback))" and st: "st' = st2"
      by simp_all
    let ?new = "?c # CallTavily ?q tr # fallback"
    have nochat: "\<forall>c \<in> set fallback. \<not> is_chat c" using fb(1) by (simp add: filter_empty_conv)
    have "snd st' = snd st @ ?new" using lg chat_log[OF answer] st by simp
    moreover have "length (filter is_chat ?new) = 1" "length (filter is_tavily ?new) = 1"
      "filter is_wikipedia ?new = []" using fb by simp_all
    moreover have "additions ?new = additions (CallTavily ?q tr # fallback)" by simp
    moreover have "\<forall>p x e. CallChatCompletion p (x, Some e) \<notin> set ?new"
      using nochat by auto
    ultimately show ?thesis unfolding r by (intro exI[of _ ?new]) simp
  qed
qed

text \<open>
  The loop from the iteration \<open>i\<close> on: at most \<open>maxIterations - i\<close> rounds; the text it
  returns is the text it started from with the blocks of the searches that answered; it
  returns nothing only when the evaluation answers without a choice; and an error of the
  evaluation call is the last call of the loop.
\<close>

lemma loop_log:
  assumes "maxIterations - i = k" "reflection_loop env query i acc st = (res, st')"
  shows "\<exists>new. snd st' = snd st @ new \<and> length (filter is_chat new) \<le> k \<and>
           length (filter is_tavily new) \<le> k \<and> filter is_wikipedia new = [] \<and>
           (res = Return (acc @ additions new) \<or>
            res = Panic \<and> new \<noteq> [] \<and> (\<exists>p. last new = CallChatCompletion p ([], None))) \<and>
           (\<forall>p x e. CallChatCompletion p (x, Some e) \<in> set new \<longrightarrow>
              res = Return (acc @ additions new) \<and> last new = CallChatCompletion p (x, Some e))"
  using assms
proof (induction k arbitrary: i acc st)
  case 0
  then have "\<not> i < maxIterations" by simp
  with 0(2) have "st' = st" "res = Return acc" by (subst (asm) reflection_loop.simps, simp)+
  then show ?case by simp
next
  case (Suc k)
  then have lt: "i < maxIterations" by simp
  obtain r st1 where rd: "reflection_round env query acc st = (r, st1)" by (metis surj_pair)
  from round_log[OF rd] obtain new1 where n1: "snd st1 = snd st @ new1"
    "length (filter is_chat new1) = 1" "length (filter is_tavily new1) \<le> 1"
    "filter is_wikipedia new1 = []"
    and shape: "(case r of
              Inl stop \<Rightarrow> \<exists>p cr. new1 = [CallChatCompletion p cr] \<and>
                            (stop = Return acc \<or> stop = Panic \<and> cr = ([], None))
            | Inr acc' \<Rightarrow> acc' = acc @ additions new1 \<and>
                            (\<forall>p x e. CallChatCompletion p (x, Some e) \<notin> set new1))"
    by (auto split: sum.splits)
  show ?case
  proof (cases r)
    case (Inl stop)
    with Suc.prems(2) lt rd have st: "st' = st1" "res = stop"
      by (subst (asm) reflection_loop.simps, simp)+
    from shape Inl obtain p cr where new1: "new1 = [CallChatCompletion p cr]"
      and stop: "stop = Return acc \<or> stop = Panic \<and> cr = ([], None)" by auto
    have "additions new1 = []" unfolding new1 by (cases cr) simp
    with n1 st stop new1 show ?thesis by (intro exI[of _ new1]) auto
  next
    case (Inr acc')
    with shape have acc': "acc' = acc @ additions new1"
      and noerr: "\<forall>p x e. CallChatCompletion p (x, Some e) \<notin> set new1" by simp_all
    from Inr Suc.prems(2) lt rd have "reflection_loop env query (i + 1) acc' st1 = (res, st')"
      by (subst (asm) reflection_loop.simps) simp
    moreover have "maxIterations - (i + 1) = k" using Suc.prems(1) by simp
    ultimately obtain new2 where n2: "snd st' = snd st1 @ new2" "length (filter is_chat new2) \<le> k"
      "length (filter is_tavily new2) \<le> k" "filter is_wikipedia new2 = []"
      and res: "res = Return (acc' @ additions new2) \<or>
            res = Panic \<and> new2 \<noteq> [] \<and> (\<exists>p. last new2 = CallChatCompletion p ([], None))"
      and err: "\<forall>p x e. CallChatCompletion p (x, Some e) \<in> set new2 \<longrightarrow>
              res = Return (acc' @ additions new2) \<and> last new2 = CallChatCompletion p (x, Some e)"
      using Suc.IH by blast
    have a: "acc' @ additions new2 = acc @ additions (new1 @ new2)"
      by (simp add: acc' additions_append)
    have "snd st' = snd st @ (new1 @ new2)" using n1 n2 by simp
    moreover have "length (filter is_chat (new1 @ new2)) \<le> Suc k"
      "length (filter is_tavily (new1 @ new2)) \<le> Suc k" "filter is_wikipedia (new1 @ new2) = []"
      using n1 n2 by simp_all
    moreover have "res = Return (acc @ additions (new1 @ new2)) \<or>
            res = Panic \<and> new1 @ new2 \<noteq> [] \<and> (\<exists>p. last (new1 @ new2) = CallChatCompletion p ([], None))"
      using res unfolding a by auto
    moreover have "\<forall>p x e. CallChatCompletion p (x, Some e) \<in> set (new1 @ new2) \<longrightarrow>
              res = Return (acc @ additions (new1 @ new2)) \<and>
              last (new1 @ new2) = CallChatCompletion p (x, Some e)"
    proof (intro allI impI)
      fix p x e
      assume "CallChatCompletion p (x, Some e) \<in> set (new1 @ new2)"
      with noerr have m: "CallChatCompletion p (x, Some e) \<in> set new2" by simp
      then have "new2 \<noteq> []" by auto
      with err m show "res = Return (acc @ additions (new1 @ new2)) \<and>
              last (new1 @ new2) = CallChatCompletion p (x, Some e)"
        unfolding a by simp
    qed
    ultimately show ?thesis by (intro exI[of _ "new1 @ new2"] conjI)
  qed
qed

lemma sufficient_answer: "Contains (ToUpper (TrimSpace ''SUFFICIENT'')) ''SUFFICIENT''"
  by code_simp

lemma insufficient_answer: "\<not> Contains (ToUpper (TrimSpace ''more detail'')) ''SUFFICIENT''"
  by code_simp

lemma loop_stop:
  assumes "i < maxIterations" "reflection_round env query acc st = (Inl stop, st1)"
  shows "reflection_loop env query i acc st = (stop, st1)"
  using assms by (subst reflection_loop.simps) simp

lemma loop_insufficient:
  assumes always: "\<forall>p v. \<exists>c cs v'. CreateChatCompletion env p v = ((c # cs, None), v') \<and>
                     \<not> Contains (ToUpper (TrimSpace c)) ''SUFFICIENT''"
    and "maxIterations - i = k" "reflection_loop env query i acc st = (res, st')"
  shows "\<exists>new. res = Return (acc @ additions new) \<and> snd st' = snd st @ new \<and>
           length (filter is_chat new) = k \<and> length (filter is_tavily new) = k"
  using assms(2,3)
proof (induction k arbitrary: i acc st)
  case 0
  then have "\<not> i < maxIterations" by simp
  with 0(2) have "st' = st" "res = Return acc" by (subst (asm) reflection_loop.simps, simp)+
  then show ?case by simp
next
  case (Suc k)
  then have lt: "i < maxIterations" by simp
  from always obtain c cs v' where
    cc: "CreateChatCompletion env (reflection_prompt query acc) (fst st) = ((c # cs, None), v')"
    and insuff: "\<not> Contains (ToUpper (TrimSpace c)) ''SUFFICIENT''" by blast
  let ?c = "CallChatCompletion (reflection_prompt query acc) (c # cs, None)"
  let ?q = "Trim (TrimSpace c) [CHR 0x22, CHR 0x27]"
  from cc have ch: "chat env (reflection_prompt query acc) st = ((c # cs, None), v', snd st @ [?c])"
    by (simp add: chat_def)
  from round_refine[OF ch insuff] obtain st1 tr fallback where
    rd: "reflection_round env query acc st = (Inr (acc @ additions (CallTavily ?q tr # fallback)), st1)" and
    log1: "snd st1 = snd (v', snd st @ [?c]) @ CallTavily ?q tr # fallback" and
    fb: "filter is_chat fallback = []" "filter is_tavily fallback = []"
    by (elim exE conjE) (rule that)
  let ?acc1 = "acc @ additions (CallTavily ?q tr # fallback)"
  from Suc.prems(2) lt rd have "reflection_loop env query (i + 1) ?acc1 st1 = (res, st')"
    by (subst (asm) reflection_loop.simps) simp
  moreover have "maxIterations - (i + 1) = k" using Suc.prems(1) by simp
  ultimately obtain new2 where r: "res = Return (?acc1 @ additions new2)"
    "snd st' = snd st1 @ new2" "length (filter is_chat new2) = k" "length (filter is_tavily new2) = k"
    using Suc.IH by blast
  let ?new = "?c # CallTavily ?q tr # fallback @ new2"
  have "additions ?new = additions (CallTavily ?q tr # fallback) @ additions new2"
    using additions_append[of "CallTavily ?q tr # fallback" new2] by simp
  then have "res = Return (acc @ additions ?new)" using r(1) by simp
  moreover have "snd st' = snd st @ ?new" using r(2) log1 by simp
  moreover have "length (filter is_chat ?new) = Suc k" "length (filter is_tavily ?new) = Suc k"
    using fb r(3,4) by simp_all
  ultimately show ?case by (intro exI[of _ ?new] conjI)
qed

lemma search_finish_success:
  "\<exists>r h' st'. search_finish env query acc (h, st) = (Return (r, None), h', st') \<and> Success r \<and>
      TaskType r = TaskTypeSearch \<and>
      Output r = (case fst (wikipedia env query st) of
                    (wikiResult, wikiErr) \<Rightarrow>
                      if wikiErr = None \<and> wikiResult \<noteq> [] then wikipedia_format acc wikiResult
                      else acc)"
  by (auto simp: search_finish_def Let_def split: prod.splits)

lemma search_after_loop:
  assumes "tavily env (search_query h task) st = ((sr, None), stA) \<or>
           (\<exists>x e stT. tavily env (search_query h task) st = ((x, Some e), stT) \<and>
                      duckduckgo env (search_query h task) stT = ((sr, None), stA))"
    and "reflection_loop env (search_query h task) 0 sr stA = (Return acc, stB)"
  shows "\<exists>r h' st'. SearchExecute env task (h, st) = (Return (r, None), h', st') \<and> Success r \<and>
      Output r = (case fst (wikipedia env (search_query h task) stB) of
                    (wikiResult, wikiErr) \<Rightarrow>
                      if wikiErr = None \<and> wikiResult \<noteq> [] then wikipedia_format acc wikiResult
                      else acc)"
  using assms search_finish_success[of env "search_query h task" acc h stB]
  by (auto simp: SearchExecute_def Let_def)

lemma search_both_fail:
  assumes "tavily env (search_query h task) st = ((r1, Some e1), stA)"
    and "duckduckgo env (search_query h task) stA = ((r2, Some e2), stB)"
  shows "SearchExecute env task (h, st) =
           (Return (\<lparr>TaskType = TaskTypeSearch, Success = False, Output = [], Error = e2,
                      Metadata = None, NewTasks = []\<rparr>, Some e2), h, stB) \<and>
         snd stB = snd st @ [CallTavily (search_query h task) (r1, Some e1),
                             CallDuckDuckGo (search_query h task) (r2, Some e2)]"
  using assms tavily_log[OF assms(1)] duckduckgo_log[OF assms(2)]
  by (simp add: SearchExecute_def Let_def)

section \<open>Lemmas about the plan review\<close>

lemma plan_goals_append: "plan_goals (a @ b) = plan_goals a @ plan_goals b"
  by (induction a rule: plan_goals.induct) simp_all

lemma modification_texts_append: "modification_texts (a @ b) = modification_texts a @ modification_texts b"
  by (induction a rule: modification_texts.induct) simp_all

lemma last_plan_append: "last_plan p (a @ b) = last_plan (last_plan p a) b"
  by (induction p a rule: last_plan.induct) simp_all

lemma call_ReviewPlan_log:
  "call_ReviewPlan handler plan st = ((m, e), st1) \<Longrightarrow> snd st1 = snd st @ [ReviewCalled plan m e]"
  by (auto simp: call_ReviewPlan_def split: prod.splits)

lemma call_Plan_log:
  "call_Plan planner goal st = (r, st1) \<Longrightarrow> snd st1 = snd st @ [PlanCalled goal r]"
  by (auto simp: call_Plan_def split: prod.splits)

lemma review_approve:
  "call_ReviewPlan handler plan st = (([], None), st1) \<Longrightarrow>
   review_loop planner handler plan st = Some (Inr plan, st1)"
  by (subst review_loop.simps) simp

lemma review_reject:
  "call_ReviewPlan handler plan st = ((m, Some err), st1) \<Longrightarrow>
   review_loop planner handler plan st = Some (Inl (PlanReviewFailed err), st1)"
  by (subst review_loop.simps) simp

lemma review_modify:
  "call_ReviewPlan handler plan st = ((m, None), st1) \<Longrightarrow> m \<noteq> [] \<Longrightarrow>
   review_loop planner handler plan st =
     (case call_Plan planner m st1 of
        (Inl err, st2) \<Rightarrow> Some (Inl (RePlanningFailed err), st2)
      | (Inr plan', st2) \<Rightarrow> review_loop planner handler plan' st2)"
  by (subst review_loop.simps) simp

lemma review_loop_reviewed:
  assumes "review_loop planner handler plan st = Some out"
  shows "reviewed plan st out"
proof -
  have "reviewed plan st out"
    using assms
  proof (rule review_loop.raw_induct[where P = "\<lambda>planner handler plan st out. reviewed plan st out", rotated])
    fix loop' :: "(string \<Rightarrow> 'w \<Rightarrow> (go_error + Plan) \<times> 'w) \<Rightarrow> 'w InteractionHandler \<Rightarrow> Plan \<Rightarrow>
       'w \<times> review_event list \<Rightarrow> ((plan_error + Plan) \<times> 'w \<times> review_event list) option"
    fix planner handler plan and st :: "'w \<times> review_event list" and out
    assume IH: "\<And>planner handler plan st out. loop' planner handler plan st = Some out \<Longrightarrow> reviewed plan st out"
    assume eq: "(case call_ReviewPlan handler plan st of
        ((modification, Some err), st1) \<Rightarrow> Some (Inl (PlanReviewFailed err), st1)
      | ((modification, None), st1) \<Rightarrow>
          (if modification = [] then Some (Inr plan, st1)
           else
             (case call_Plan planner modification st1 of
                (Inl err, st2) \<Rightarrow> Some (Inl (RePlanningFailed err), st2)
              | (Inr plan', st2) \<Rightarrow> loop' planner handler plan' st2))) = Some out"
    obtain m e st1 where rv: "call_ReviewPlan handler plan st = ((m, e), st1)" by (metis surj_pair)
    note l1 = call_ReviewPlan_log[OF rv]
    show "reviewed plan st out"
    proof (cases e)
      case (Some err)
      with eq rv have "out = (Inl (PlanReviewFailed err), st1)" by simp
      with l1 Some show ?thesis by (simp add: reviewed_def)
    next
      case None
      show ?thesis
      proof (cases "m = []")
        case True
        with eq rv None have "out = (Inr plan, st1)" by simp
        with l1 None True show ?thesis by (simp add: reviewed_def)
      next
        case False
        obtain r st2 where pl: "call_Plan planner m st1 = (r, st2)" by (metis surj_pair)
        note l2 = call_Plan_log[OF pl]
        show ?thesis
        proof (cases r)
          case (Inl err)
          with eq rv None False pl have "out = (Inl (RePlanningFailed err), st2)" by simp
          with l1 l2 None False show ?thesis by (simp add: reviewed_def)
        next
          case (Inr plan')
          with eq rv None False pl have "loop' planner handler plan' st2 = Some out" by simp
          from IH[OF this] obtain new where new: "snd (snd out) = snd st2 @ new"
            "plan_goals new = modification_texts new"
            "(case fst out of Inr final \<Rightarrow> final = last_plan plan' new | Inl err \<Rightarrow> True)"
            unfolding reviewed_def by blast
          let ?new = "[ReviewCalled plan m e, PlanCalled m r] @ new"
          have "snd (snd out) = snd st @ ?new" using new(1) l1 l2 by simp
          moreover have "plan_goals ?new = modification_texts ?new" using new(2) None False by simp
          moreover have "(case fst out of Inr final \<Rightarrow> final = last_plan plan ?new | Inl err \<Rightarrow> True)"
            using new(3) Inr by (simp split: sum.splits)
          ultimately show ?thesis unfolding reviewed_def by blast
        qed
      qed
    qed
  qed
  then show ?thesis .
qed

section \<open>The claims\<close>

text \<open>
  Claim C1.  At any state \<open>s\<close> that an \<^verbatim>\<open>Execute\<close> call reaches with the cursor on a
  task, if the subagent returns no error and a successful result \<open>r\<close> with a non-empty
  \<open>NewTasks\<close>, the step leaves the task sequence
  \<open>tasks[0..i] @ NewTasks r @ tasks[i+1..]\<close>: it grows by exactly the new tasks, the
  prefix up to and including \<open>i\<close> is unchanged, the old tail follows the new tasks
  unchanged, and the tasks of the original plan still occur in their original order.
  Tasks are compared as Go compares struct values; the entries of a shared parameter map
  are in the heap and are not part of the comparison.
\<close>

theorem C1_splice:
  assumes reach: "exec_steps ag n (init_state plan h0 w0) = Some s"
    and lt: "loop_i s < length (plan_tasks s)"
    and d: "dispatch ag s = ((task, h), Some ((r, None), h', w'))"
    and succ: "Success r" and new: "NewTasks r \<noteq> []"
  shows "\<exists>s'. exec_step ag s = Inr s' \<and>
           plan_tasks s' =
             take (Suc (loop_i s)) (plan_tasks s) @ NewTasks r @ drop (Suc (loop_i s)) (plan_tasks s) \<and>
           length (plan_tasks s') = length (plan_tasks s) + length (NewTasks r) \<and>
           take (Suc (loop_i s)) (plan_tasks s') = take (Suc (loop_i s)) (plan_tasks s) \<and>
           drop (Suc (loop_i s) + length (NewTasks r)) (plan_tasks s') = drop (Suc (loop_i s)) (plan_tasks s) \<and>
           subseq (Tasks plan) (plan_tasks s')"
proof -
  let ?i = "loop_i s"
  from exec_step_ok[OF d] succ new obtain s' where step: "exec_step ag s = Inr s'"
    and ts: "plan_tasks s' = take (Suc ?i) (plan_tasks s) @ NewTasks r @ drop (Suc ?i) (plan_tasks s)"
    by simp
  have len: "length (take (Suc ?i) (plan_tasks s)) = Suc ?i" using lt by simp
  have "subseq (plan_tasks (init_state plan h0 w0)) (plan_tasks s)"
    using exec_steps_tasks[OF reach] by simp
  moreover have "subseq (plan_tasks s) (plan_tasks s')"
    by (rule exec_step_tasks(3)[OF lt step])
  ultimately have "subseq (Tasks plan) (plan_tasks s')"
    unfolding init_state_def by (auto intro: subseq_order.order_trans)
  moreover have "drop (Suc ?i + length (NewTasks r)) (plan_tasks s') = drop (Suc ?i) (plan_tasks s)"
    unfolding ts using len by simp
  moreover have "take (Suc ?i) (plan_tasks s') = take (Suc ?i) (plan_tasks s)"
    unfolding ts using len by simp
  moreover have "length (plan_tasks s') = length (plan_tasks s) + length (NewTasks r)"
    unfolding ts using lt by simp
  ultimately show ?thesis using step ts by (intro exI[of _ s']) simp
qed

theorem C1_splice_witness:
  "\<exists>s'. exec_step ex_agent (init_state (ex_plan [''A'', ''C'']) heap0 ()) = Inr s' \<and>
        plan_tasks s' = [ex_task ''A'', ex_task ''B'', ex_task ''C'']"
proof -
  let ?s = "init_state (ex_plan [''A'', ''C'']) heap0 ()"
  let ?r = "ex_result True [] [ex_task ''B''] (ex_task ''A'')"
  obtain task h where d: "dispatch ex_agent ?s = ((task, h), Some ((?r, None), h, ()))"
    using ex_dispatch by (elim exE) (rule that)
  have reach: "exec_steps ex_agent 0 ?s = Some ?s" by simp
  have lt: "loop_i ?s < length (plan_tasks ?s)" by (simp add: init_state_def ex_plan_def)
  have succ: "Success ?r" and new: "NewTasks ?r \<noteq> []" by (simp_all add: ex_result_def)
  from C1_splice[OF reach lt d succ new]
  show ?thesis by (auto simp: init_state_def ex_plan_def ex_result_def)
qed

text \<open>
  Claim C2.  Let the plan have \<open>N\<close> tasks and \<open>k < N\<close>.  Suppose that at each of the
  first \<open>N + M\<close> steps the subagent is registered and returns no error, that the result of
  step \<open>k\<close> reports success and carries \<open>M\<close> new tasks, and that no other step returns
  a successful result with new tasks.  Then \<^verbatim>\<open>Execute\<close> returns, with exactly
  \<open>N + M\<close> results; the final sequence is the plan's first \<open>k + 1\<close> tasks, the \<open>M\<close>
  new tasks and the rest of the plan; and for every \<open>j < N + M\<close> the \<open>j\<close>-th result is
  what the subagent returned at step \<open>j\<close>, which dispatched the \<open>j\<close>-th task of that
  sequence.  So results \<open>k + 1\<close> to \<open>k + M\<close> are those of the inserted tasks, which run
  before the plan's tasks \<open>k + 1\<close> to \<open>N - 1\<close>.
\<close>

theorem C2_insertion_count:
  assumes N: "length (Tasks plan) = N" and k: "k < N"
    and H: "\<forall>j<N + M. \<forall>s. exec_steps ag j (init_state plan h0 w0) = Some s \<longrightarrow>
              (\<exists>task h r h' w'. dispatch ag s = ((task, h), Some ((r, None), h', w')) \<and>
                 (if j = k then Success r \<and> length (NewTasks r) = M
                  else \<not> (Success r \<and> NewTasks r \<noteq> [])))"
  shows "\<exists>sf. Execute ag plan h0 w0 = Some (Finished sf) \<and>
              returned (Finished sf) = Inr (results sf) \<and>
              length (results sf) = N + M \<and>
              length (NewTasks (results sf ! k)) = M \<and>
              plan_tasks sf =
                take (Suc k) (Tasks plan) @ NewTasks (results sf ! k) @ drop (Suc k) (Tasks plan) \<and>
              (\<forall>j<N + M. \<exists>s task h h' w'.
                  exec_steps ag j (init_state plan h0 w0) = Some s \<and> loop_i s = j \<and>
                  plan_tasks s ! j = plan_tasks sf ! j \<and>
                  dispatch ag s = ((task, h), Some ((results sf ! j, None), h', w')))"
proof -
  let ?init = "init_state plan h0 w0"
  let ?ts = "Tasks plan"
  have cur: "loop_i s = j" if "exec_steps ag j ?init = Some s" for j s
    using exec_steps_tasks[OF that] by (simp add: init_state_def)
  \<comment> \<open>up to step \<open>k\<close> the sequence is the plan's\<close>
  have before: "j \<le> k \<Longrightarrow> \<exists>s. exec_steps ag j ?init = Some s \<and> plan_tasks s = ?ts" for j
  proof (induction j)
    case 0
    show ?case by (simp add: init_state_def)
  next
    case (Suc j)
    then obtain s where s: "exec_steps ag j ?init = Some s" and ts: "plan_tasks s = ?ts" by auto
    from Suc.prems k have jn: "j < N + M" and jk: "j \<noteq> k" by simp_all
    from H[rule_format, OF jn s] jk obtain task h r h' w' where
      d: "dispatch ag s = ((task, h), Some ((r, None), h', w'))" and
      nonew: "\<not> (Success r \<and> NewTasks r \<noteq> [])" by auto
    have lt: "loop_i s < length (plan_tasks s)" using cur[OF s] ts N Suc.prems k by simp
    from exec_step_ok[OF d] nonew obtain s' where step: "exec_step ag s = Inr s'"
      and ts': "plan_tasks s' = plan_tasks s" by auto
    from exec_steps_snoc[OF s lt step] ts ts' show ?case by simp
  qed
  then obtain sk where sk: "exec_steps ag k ?init = Some sk" and tsk: "plan_tasks sk = ?ts" by blast
  have kn: "k < N + M" using k by simp
  from H[rule_format, OF kn sk] obtain taskk hk rk hk' wk' where
    dk: "dispatch ag sk = ((taskk, hk), Some ((rk, None), hk', wk'))" and
    succ: "Success rk" and lenM: "length (NewTasks rk) = M" by auto
  let ?ts' = "take (Suc k) ?ts @ NewTasks rk @ drop (Suc k) ?ts"
  have len': "length ?ts' = N + M" using N k lenM by simp
  have ltk: "loop_i sk < length (plan_tasks sk)" using cur[OF sk] tsk N k by simp
  from exec_step_ok[OF dk] succ obtain sk1 where stepk: "exec_step ag sk = Inr sk1"
    and tsk1: "plan_tasks sk1 = ?ts'" by (auto simp: cur[OF sk] tsk)
  have sk1: "exec_steps ag (Suc k) ?init = Some sk1" by (rule exec_steps_snoc[OF sk ltk stepk])
  \<comment> \<open>after step \<open>k\<close> the sequence is the spliced one\<close>
  have after: "Suc k + d \<le> N + M \<Longrightarrow> \<exists>s. exec_steps ag (Suc k + d) ?init = Some s \<and> plan_tasks s = ?ts'" for d
  proof (induction d)
    case 0
    show ?case using sk1 tsk1 by simp
  next
    case (Suc d)
    let ?j = "Suc k + d"
    from Suc obtain s where s: "exec_steps ag ?j ?init = Some s" and ts: "plan_tasks s = ?ts'" by auto
    from Suc.prems have jn: "?j < N + M" and jk: "?j \<noteq> k" by simp_all
    from H[rule_format, OF jn s] jk obtain task h r h' w' where
      d: "dispatch ag s = ((task, h), Some ((r, None), h', w'))" and
      nonew: "\<not> (Success r \<and> NewTasks r \<noteq> [])" by auto
    have lt: "loop_i s < length (plan_tasks s)" using cur[OF s] ts len' jn by simp
    from exec_step_ok[OF d] nonew obtain s' where step: "exec_step ag s = Inr s'"
      and ts': "plan_tasks s' = plan_tasks s" by auto
    from exec_steps_snoc[OF s lt step] ts ts' show ?case by simp
  qed
  define dn where "dn = N + M - Suc k"
  have dn: "Suc k + dn = N + M" using k by (simp add: dn_def)
  have "\<exists>s. exec_steps ag (Suc k + dn) ?init = Some s \<and> plan_tasks s = ?ts'"
    by (rule after) (use dn in linarith)
  then obtain sf where sf: "exec_steps ag (N + M) ?init = Some sf"
    and tsf: "plan_tasks sf = ?ts'" unfolding dn by blast
  have fin: "\<not> loop_i sf < length (plan_tasks sf)" using cur[OF sf] tsf len' by simp
  have run: "Execute ag plan h0 w0 = Some (Finished sf)"
    unfolding Execute_def by (rule exec_loop_finished[OF sf fin])
  have "exec_inv sf" by (rule exec_inv_steps[OF exec_inv_init sf])
  then have lenr: "length (results sf) = N + M" using cur[OF sf] by (simp add: exec_inv_def)
  have rk: "results sf ! k = rk" by (rule exec_steps_results_nth[OF sk dk sf kn])
  have each: "\<exists>s task h h' w'.
                  exec_steps ag j ?init = Some s \<and> loop_i s = j \<and>
                  plan_tasks s ! j = plan_tasks sf ! j \<and>
                  dispatch ag s = ((task, h), Some ((results sf ! j, None), h', w'))"
    if jn: "j < N + M" for j
  proof -
    have "\<exists>s. exec_steps ag j ?init = Some s \<and> plan_tasks s ! j = ?ts' ! j"
    proof (cases "j \<le> k")
      case True
      from before[OF True] obtain s where "exec_steps ag j ?init = Some s" "plan_tasks s = ?ts" by auto
      moreover have "?ts' ! j = ?ts ! j" using True k N by (simp add: nth_append)
      ultimately show ?thesis by auto
    next
      case False
      define dj where "dj = j - Suc k"
      have dj: "Suc k + dj = j" using False by (simp add: dj_def)
      have "\<exists>s. exec_steps ag (Suc k + dj) ?init = Some s \<and> plan_tasks s = ?ts'"
        by (rule after) (use jn dj in linarith)
      then show ?thesis unfolding dj by auto
    qed
    then obtain s where s: "exec_steps ag j ?init = Some s" and nth: "plan_tasks s ! j = ?ts' ! j" by auto
    from H[rule_format, OF jn s] obtain task h r h' w' where
      d: "dispatch ag s = ((task, h), Some ((r, None), h', w'))" by auto
    have "results sf ! j = r" by (rule exec_steps_results_nth[OF s d sf jn])
    with s cur[OF s] nth tsf d show ?thesis by auto
  qed
  from run lenr rk lenM tsf each show ?thesis by (intro exI[of _ sf]) simp
qed

theorem C2_insertion_count_witness:
  "\<exists>sf. Execute ex_agent (ex_plan [''A'', ''F'']) heap0 () = Some (Finished sf) \<and>
        length (results sf) = 3 \<and>
        plan_tasks sf = [ex_task ''A'', ex_task ''B'', ex_task ''F'']"
proof -
  let ?plan = "ex_plan [''A'', ''F'']"
  have N: "length (Tasks ?plan) = 2" by (simp add: ex_plan_def)
  have k: "(0::nat) < 2" by simp
  have H: "\<forall>j<2 + 1. \<forall>s. exec_steps ex_agent j (init_state ?plan heap0 ()) = Some s \<longrightarrow>
              (\<exists>task h r h' w'. dispatch ex_agent s = ((task, h), Some ((r, None), h', w')) \<and>
                 (if j = 0 then Success r \<and> length (NewTasks r) = 1
                  else \<not> (Success r \<and> NewTasks r \<noteq> [])))"
  proof (intro allI impI)
    fix j :: nat and s
    assume "j < 2 + 1" and s: "exec_steps ex_agent j (init_state ?plan heap0 ()) = Some s"
    then consider "j = 0" | "j = Suc 0" | "j = Suc (Suc 0)" by linarith
    then show "\<exists>task h r h' w'. dispatch ex_agent s = ((task, h), Some ((r, None), h', w')) \<and>
                 (if j = 0 then Success r \<and> length (NewTasks r) = 1
                  else \<not> (Success r \<and> NewTasks r \<noteq> []))"
    proof cases
      case 1
      with s show ?thesis by (auto simp: ex_run)
    next
      case 2
      with s show ?thesis by (auto simp: ex_run)
    next
      case 3
      with s show ?thesis by (auto simp: ex_run)
    qed
  qed
  from C2_insertion_count[OF N k H]
  obtain sf where run: "Execute ex_agent ?plan heap0 () = Some (Finished sf)"
    and len: "length (results sf) = 2 + 1"
    and ts: "plan_tasks sf =
                take (Suc 0) (Tasks ?plan) @ NewTasks (results sf ! 0) @ drop (Suc 0) (Tasks ?plan)"
    and each: "\<forall>j<2 + 1. \<exists>s task h h' w'.
                  exec_steps ex_agent j (init_state ?plan heap0 ()) = Some s \<and> loop_i s = j \<and>
                  plan_tasks s ! j = plan_tasks sf ! j \<and>
                  dispatch ex_agent s = ((task, h), Some ((results sf ! j, None), h', w'))"
    by blast
  from each[rule_format, of 0] obtain task h h' w' where
    "dispatch ex_agent (init_state ?plan heap0 ()) = ((task, h), Some ((results sf ! 0, None), h', w'))"
    by auto
  moreover have "\<exists>task h. dispatch ex_agent (init_state ?plan heap0 ()) =
      ((task, h), Some ((ex_result True [] [ex_task ''B''] (ex_task ''A''), None), h, ()))"
    by (simp add: ex_defs)
  ultimately have "results sf ! 0 = ex_result True [] [ex_task ''B''] (ex_task ''A'')" by auto
  then have "NewTasks (results sf ! 0) = [ex_task ''B'']" by (simp add: ex_result_def)
  with run len ts show ?thesis by (simp add: ex_plan_def)
qed

text \<open>
  Claim C3.  When an \<^verbatim>\<open>Execute\<close> call reaches a task whose type has no registered
  subagent, the call returns at once with the unknown-task-type error and without
  results: the state it leaves has the results, task sequence and cursor of the moment the
  task was reached, and no subagent has acted on the world.
\<close>

theorem C3_unknown_task_type:
  assumes reach: "exec_steps ag n (init_state plan h0 w0) = Some s"
    and lt: "loop_i s < length (plan_tasks s)"
    and unknown: "subagents ag (Type (plan_tasks s ! loop_i s)) = None"
  shows "\<exists>sf. Execute ag plan h0 w0 =
                 Some (Aborted (UnknownTaskType (Type (plan_tasks s ! loop_i s))) sf) \<and>
              returned (Aborted (UnknownTaskType (Type (plan_tasks s ! loop_i s))) sf) =
                 Inl (UnknownTaskType (Type (plan_tasks s ! loop_i s))) \<and>
              results sf = results s \<and> world sf = world s \<and>
              plan_tasks sf = plan_tasks s \<and> loop_i sf = loop_i s"
proof -
  obtain task h ro where d: "dispatch ag s = ((task, h), ro)"
    by (metis surj_pair)
  from dispatch_Type[OF d] unknown d have "ro = None"
    by (auto simp: dispatch_def Let_def split: prod.splits)
  with d have "exec_step ag s = Inl (UnknownTaskType (Type (plan_tasks s ! loop_i s)), s\<lparr>hp := h\<rparr>)"
    by (simp add: exec_step_unknown)
  with lt have "exec_loop ag s = Some (Aborted (UnknownTaskType (Type (plan_tasks s ! loop_i s))) (s\<lparr>hp := h\<rparr>))"
    by (subst exec_loop.simps) simp
  with exec_loop_steps[OF reach] show ?thesis
    by (intro exI[of _ "s\<lparr>hp := h\<rparr>"]) (simp add: Execute_def)
qed

theorem C3_unknown_task_type_witness:
  "\<exists>sf. Execute ex_agent (ex_plan [''B'', ''X'', ''B'']) heap0 () =
           Some (Aborted (UnknownTaskType ''X'') sf) \<and>
        map Output (results sf) = [''out''] \<and> loop_i sf = 1"
proof -
  let ?init = "init_state (ex_plan [''B'', ''X'', ''B'']) heap0 ()"
  have "\<exists>s. exec_steps ex_agent 1 ?init = Some s \<and> loop_i s = 1 \<and>
            plan_tasks s = [ex_task ''B'', ex_task ''X'', ex_task ''B''] \<and>
            map Output (results s) = [''out'']"
    by (simp add: ex_run)
  then obtain s where reach: "exec_steps ex_agent 1 ?init = Some s" and i: "loop_i s = 1"
    and ts: "plan_tasks s = [ex_task ''B'', ex_task ''X'', ex_task ''B'']"
    and rs: "map Output (results s) = [''out'']" by (elim exE conjE) (rule that)
  have lt: "loop_i s < length (plan_tasks s)" by (simp add: i ts)
  have unknown: "subagents ex_agent (Type (plan_tasks s ! loop_i s)) = None"
    by (simp add: i ts ex_agent_def ex_task_def)
  from C3_unknown_task_type[OF reach lt unknown]
  show ?thesis by (auto simp: i ts rs ex_task_def)
qed

text \<open>
  Claim C4.  At any state an \<^verbatim>\<open>Execute\<close> call reaches with the cursor on a task whose
  subagent returns \<open>(r, err)\<close>: when \<open>err\<close> is nil and \<open>r\<close> reports failure, \<open>r\<close> is
  appended to the results (its \<open>Error\<close> text with it), the cursor moves to the next
  position of the unchanged sequence, the call continues as the loop from there, and a
  call that returns results returns \<open>r\<close> at that position; when \<open>err\<close> is an error,
  the call returns that error, wrapped with the task number, and no results.
\<close>

theorem C4_failure_and_transport_error:
  assumes reach: "exec_steps ag n (init_state plan h0 w0) = Some s"
    and lt: "loop_i s < length (plan_tasks s)"
    and d: "dispatch ag s = ((task, h), Some ((r, err), h', w'))"
  shows "(err = None \<and> \<not> Success r \<longrightarrow>
            (\<exists>s'. exec_steps ag (Suc n) (init_state plan h0 w0) = Some s' \<and>
                   results s' = results s @ [r] \<and>
                   Error (results s' ! loop_i s) = Error r \<and>
                   loop_i s' = loop_i s + 1 \<and>
                   plan_tasks s' = plan_tasks s \<and>
                   Execute ag plan h0 w0 = exec_loop ag s') \<and>
            (\<forall>sf. Execute ag plan h0 w0 = Some (Finished sf) \<longrightarrow>
                   returned (Finished sf) = Inr (results sf) \<and>
                   loop_i s < length (results sf) \<and> results sf ! loop_i s = r)) \<and>
         (\<forall>e. err = Some e \<longrightarrow>
            Execute ag plan h0 w0 =
              Some (Aborted (TaskFailed (loop_i s + 1) e) (s\<lparr>hp := h', world := w'\<rparr>)) \<and>
            returned (Aborted (TaskFailed (loop_i s + 1) e) (s\<lparr>hp := h', world := w'\<rparr>)) =
              Inl (TaskFailed (loop_i s + 1) e))"
proof -
  have inv: "exec_inv s" by (rule exec_inv_steps[OF exec_inv_init reach])
  then have len: "length (results s) = loop_i s" by (simp add: exec_inv_def)
  have run: "Execute ag plan h0 w0 = exec_loop ag s"
    unfolding Execute_def by (rule exec_loop_steps[OF reach])
  have semantic: "(\<exists>s'. exec_steps ag (Suc n) (init_state plan h0 w0) = Some s' \<and>
                   results s' = results s @ [r] \<and>
                   Error (results s' ! loop_i s) = Error r \<and>
                   loop_i s' = loop_i s + 1 \<and>
                   plan_tasks s' = plan_tasks s \<and>
                   Execute ag plan h0 w0 = exec_loop ag s') \<and>
            (\<forall>sf. Execute ag plan h0 w0 = Some (Finished sf) \<longrightarrow>
                   returned (Finished sf) = Inr (results sf) \<and>
                   loop_i s < length (results sf) \<and> results sf ! loop_i s = r)"
    if a: "err = None \<and> \<not> Success r"
  proof -
    let ?s' = "s\<lparr>hp := h', world := w', results := results s @ [r], loop_i := loop_i s + 1\<rparr>"
    have step: "exec_step ag s = Inr ?s'"
      using exec_step_ok[of ag s task h r h' w'] d a by simp
    have steps: "exec_steps ag (Suc n) (init_state plan h0 w0) = Some ?s'"
      by (rule exec_steps_snoc[OF reach lt step])
    have run': "Execute ag plan h0 w0 = exec_loop ag ?s'"
      unfolding Execute_def by (rule exec_loop_steps[OF steps])
    have nth: "results ?s' ! loop_i s = r" using len by (simp add: nth_append)
    have later: "loop_i s < length (results sf) \<and> results sf ! loop_i s = r"
      if fin: "Execute ag plan h0 w0 = Some (Finished sf)" for sf
    proof -
      from fin run' have "stopped ag ?s' (Finished sf)" by (simp add: exec_loop_SomeD)
      from stopped_results[OF this] have "prefix (results s @ [r]) (results sf)" by simp
      then obtain zs where "results sf = (results s @ [r]) @ zs" by (auto simp: prefix_def)
      with len show ?thesis by (simp add: nth_append)
    qed
    have "exec_steps ag (Suc n) (init_state plan h0 w0) = Some ?s' \<and>
                   results ?s' = results s @ [r] \<and>
                   Error (results ?s' ! loop_i s) = Error r \<and>
                   loop_i ?s' = loop_i s + 1 \<and>
                   plan_tasks ?s' = plan_tasks s \<and>
                   Execute ag plan h0 w0 = exec_loop ag ?s'"
      using steps run' nth by simp
    then have "\<exists>s'. exec_steps ag (Suc n) (init_state plan h0 w0) = Some s' \<and>
                   results s' = results s @ [r] \<and>
                   Error (results s' ! loop_i s) = Error r \<and>
                   loop_i s' = loop_i s + 1 \<and>
                   plan_tasks s' = plan_tasks s \<and>
                   Execute ag plan h0 w0 = exec_loop ag s'" by (rule exI)
    with later show ?thesis by simp
  qed
  have transport: "Execute ag plan h0 w0 =
              Some (Aborted (TaskFailed (loop_i s + 1) e) (s\<lparr>hp := h', world := w'\<rparr>))"
    if e: "err = Some e" for e
  proof -
    have "exec_step ag s = Inl (TaskFailed (Suc (loop_i s)) e, s\<lparr>hp := h', world := w'\<rparr>)"
      using exec_step_failed[of ag s task h r e h' w'] d e by simp
    with lt have "exec_loop ag s = Some (Aborted (TaskFailed (loop_i s + 1) e) (s\<lparr>hp := h', world := w'\<rparr>))"
      by (subst exec_loop.simps) simp
    with run show ?thesis by simp
  qed
  from semantic transport show ?thesis by simp
qed

theorem C4_failure_and_transport_error_witness:
  "(\<exists>s'. exec_steps ex_agent (Suc 0) (init_state (ex_plan [''F'', ''B'']) heap0 ()) = Some s' \<and>
         map Error (results s') = [''boom''] \<and> loop_i s' = 1 \<and>
         plan_tasks s' = [ex_task ''F'', ex_task ''B'']) \<and>
   (\<exists>sf. Execute ex_agent (ex_plan [''B'', ''E'', ''B'']) heap0 () =
            Some (Aborted (TaskFailed 2 ''timeout'') sf))"
proof -
  let ?init = "init_state (ex_plan [''F'', ''B'']) heap0 ()"
  let ?r = "ex_result False ''boom'' [ex_task ''B''] (ex_task ''F'')"
  have reach0: "exec_steps ex_agent 0 ?init = Some ?init" by simp
  have lt0: "loop_i ?init < length (plan_tasks ?init)" by (simp add: init_state_def ex_plan_def)
  have "\<exists>task h. dispatch ex_agent ?init = ((task, h), Some ((?r, None), h, ()))"
    by (simp add: ex_defs)
  then obtain task h where d0: "dispatch ex_agent ?init = ((task, h), Some ((?r, None), h, ()))"
    by (elim exE) (rule that)
  from C4_failure_and_transport_error[OF reach0 lt0 d0]
  have first: "\<exists>s'. exec_steps ex_agent (Suc 0) ?init = Some s' \<and>
         map Error (results s') = [''boom''] \<and> loop_i s' = 1 \<and>
         plan_tasks s' = [ex_task ''F'', ex_task ''B'']"
    by (auto simp: init_state_def ex_plan_def ex_result_def)
  let ?init2 = "init_state (ex_plan [''B'', ''E'', ''B'']) heap0 ()"
  let ?e = "ex_result False [] [] (ex_task ''E'')"
  have "\<exists>s. exec_steps ex_agent 1 ?init2 = Some s \<and> loop_i s = 1 \<and>
            plan_tasks s = [ex_task ''B'', ex_task ''E'', ex_task ''B''] \<and>
            (\<exists>task h. dispatch ex_agent s = ((task, h), Some ((?e, Some ''timeout''), h, ())))"
    by (simp add: ex_run)
  then obtain s task' h' where reach1: "exec_steps ex_agent 1 ?init2 = Some s" and i: "loop_i s = 1"
    and ts: "plan_tasks s = [ex_task ''B'', ex_task ''E'', ex_task ''B'']"
    and d1: "dispatch ex_agent s = ((task', h'), Some ((?e, Some ''timeout''), h', ()))"
    by (elim exE conjE) (rule that)
  have lt1: "loop_i s < length (plan_tasks s)" by (simp add: i ts)
  from C4_failure_and_transport_error[OF reach1 lt1 d1]
  have second: "\<exists>sf. Execute ex_agent (ex_plan [''B'', ''E'', ''B'']) heap0 () =
            Some (Aborted (TaskFailed 2 ''timeout'') sf)"
    by (simp add: i)
  from first second show ?thesis by (rule conjI)
qed

text \<open>
  Claim C5, with the condition it needs.  \<^verbatim>\<open>contextData\<close> is empty when \<^verbatim>\<open>Execute\<close>
  starts.  Line 268 stores the slice itself in the parameters of a task, so the subagent
  of the task can write to the elements accumulated so far, and so can line 266 of a
  later step, when it appends in place to a slice that shares their array.  When no step
  of the run changes these elements between its start and the return of its subagent,
  then on return (with results or with an error) \<^verbatim>\<open>contextData\<close> holds, in execution
  order, exactly one entry for every executed task whose result reports success, and
  none for a failed one; the entry is \<open>Output from T task:\<close>, a newline and the output,
  with \<open>T\<close> the type of the task.  The \<open>j\<close>-th result belongs to the \<open>j\<close>-th task of the
  sequence.
\<close>

theorem C5_context_accumulator:
  assumes run: "Execute ag plan h0 w0 = Some out"
    and undisturbed:
      "\<forall>n s. exec_steps ag n (init_state plan h0 w0) = Some s \<and> loop_i s < length (plan_tasks s) \<longrightarrow>
             slice_val (dispatched_heap ag s) (contextData s) = slice_val (hp s) (contextData s)"
  shows "sl_len (contextData (init_state plan h0 w0)) = 0 \<and>
         slice_val h0 (contextData (init_state plan h0 w0)) = [] \<and>
         slice_val (hp (final_state out)) (contextData (final_state out)) =
           map (\<lambda>(t, r). context_entry (Type t) (Output r))
               (filter (\<lambda>(t, r). Success r)
                  (zip (plan_tasks (final_state out)) (results (final_state out))))"
proof -
  from run have "stopped ag (init_state plan h0 w0) out"
    unfolding Execute_def by (rule exec_loop_SomeD)
  from stopped_acc_inv[OF this _ exec_inv_init acc_inv_init] undisturbed
  have "acc_inv (final_state out)" by blast
  then have "slice_val (hp (final_state out)) (contextData (final_state out)) =
           map (\<lambda>(t, r). context_entry (Type t) (Output r))
               (filter (\<lambda>(t, r). Success r)
                  (zip (plan_tasks (final_state out)) (results (final_state out))))"
    by (simp add: acc_inv_def)
  moreover have "sl_len (contextData (init_state plan h0 w0)) = 0"
    "slice_val h0 (contextData (init_state plan h0 w0)) = []"
    by (simp_all add: init_state_def nil_slice_def slice_val_def)
  ultimately show ?thesis by simp
qed

theorem C5_context_accumulator_witness:
  "\<exists>out. Execute ex_agent (ex_plan [''A'', ''F'']) heap0 () = Some out \<and>
         map Type (plan_tasks (final_state out)) = [''A'', ''B'', ''F''] \<and>
         map Success (results (final_state out)) = [True, True, False] \<and>
         slice_val (hp (final_state out)) (contextData (final_state out)) =
           [''Output from A task:'' @ [CHR 0x0A] @ ''out'', ''Output from B task:'' @ [CHR 0x0A] @ ''out'']"
proof -
  let ?init = "init_state (ex_plan [''A'', ''F'']) heap0 ()"
  have "\<exists>s. exec_steps ex_agent (Suc (Suc (Suc 0))) ?init = Some s \<and> loop_i s = 3 \<and>
            plan_tasks s = [ex_task ''A'', ex_task ''B'', ex_task ''F''] \<and>
            map Success (results s) = [True, True, False] \<and>
            map Output (results s) = [''out'', ''out'', ''out'']"
    by (simp add: ex_run)
  then obtain s where reach: "exec_steps ex_agent (Suc (Suc (Suc 0))) ?init = Some s" and i: "loop_i s = 3"
    and ts: "plan_tasks s = [ex_task ''A'', ex_task ''B'', ex_task ''F'']"
    and ok: "map Success (results s) = [True, True, False]"
    and out: "map Output (results s) = [''out'', ''out'', ''out'']" by (elim exE conjE) (rule that)
  have run: "Execute ex_agent (ex_plan [''A'', ''F'']) heap0 () = Some (Finished s)"
    unfolding Execute_def by (rule exec_loop_finished[OF reach]) (simp add: i ts)
  have undisturbed:
    "\<forall>n s'. exec_steps ex_agent n ?init = Some s' \<and> loop_i s' < length (plan_tasks s') \<longrightarrow>
        slice_val (dispatched_heap ex_agent s') (contextData s') = slice_val (hp s') (contextData s')"
  proof (intro allI impI, elim conjE)
    fix n s'
    assume n: "exec_steps ex_agent n ?init = Some s'" and lt: "loop_i s' < length (plan_tasks s')"
    consider "n = 0" | "n = Suc 0" | "n = Suc (Suc 0)" | m where "n = Suc (Suc (Suc 0)) + m"
      by (metis add_Suc less_Suc_eq_0_disj less_imp_Suc_add plus_nat.add_0 not_less_eq)
    then show "slice_val (dispatched_heap ex_agent s') (contextData s') = slice_val (hp s') (contextData s')"
    proof cases
      case 1
      with n show ?thesis by (auto simp: ex_run dispatched_heap_def)
    next
      case 2
      with n show ?thesis by (auto simp: ex_run dispatched_heap_def)
    next
      case 3
      with n show ?thesis by (auto simp: ex_run dispatched_heap_def)
    next
      case 4
      from n have "exec_steps ex_agent m s = Some s'"
        unfolding 4 exec_steps_add reach by simp
      with lt i ts show ?thesis by (cases m) simp_all
    qed
  qed
  obtain r1 r2 r3 where rs: "results s = [r1, r2, r3]"
    using ok by (auto simp: map_eq_Cons_conv)
  from C5_context_accumulator[OF run undisturbed] ok out
  have "slice_val (hp s) (contextData s) = [context_entry ''A'' ''out'', context_entry ''B'' ''out'']"
    by (simp add: ts rs ex_task_def)
  with run ts ok show ?thesis by (simp add: context_entry_def ex_task_def)
qed

text \<open>
  Without the condition the claim fails.  The second task of the plan \<open>B\<close>, \<open>W\<close>, \<open>B\<close>
  overwrites the first element of the context it is handed; all three tasks succeed,
  and \<^verbatim>\<open>Execute\<close> returns with \<open>X\<close> in the place of the entry of the first task.
\<close>

theorem C5_shared_slice_counterexample:
  "Execute writer_agent (ex_plan [''B'', ''W'', ''B'']) heap0 () = Some (Finished writer_state) \<and>
   map Type (plan_tasks writer_state) = [''B'', ''W'', ''B''] \<and>
   map Success (results writer_state) = [True, True, True] \<and>
   map Output (results writer_state) = [''out'', ''out'', ''out''] \<and>
   slice_val (hp writer_state) (contextData writer_state) =
     [''X'', ''Output from W task:'' @ [CHR 0x0A] @ ''out'', ''Output from B task:'' @ [CHR 0x0A] @ ''out''] \<and>
   slice_val (hp writer_state) (contextData writer_state) \<noteq>
     map (\<lambda>(t, r). context_entry (Type t) (Output r))
         (filter (\<lambda>(t, r). Success r) (zip (plan_tasks writer_state) (results writer_state)))"
proof -
  let ?init = "init_state (ex_plan [''B'', ''W'', ''B'']) heap0 ()"
  have reach: "exec_steps writer_agent (Suc (Suc (Suc 0))) ?init = Some writer_state"
    by (simp add: writer_run numeral_3_eq_3)
  have fin: "\<not> loop_i writer_state < length (plan_tasks writer_state)"
    by (simp add: writer_run numeral_3_eq_3)
  have run: "Execute writer_agent (ex_plan [''B'', ''W'', ''B'']) heap0 () = Some (Finished writer_state)"
    unfolding Execute_def by (rule exec_loop_finished[OF reach fin])
  have rest: "map Type (plan_tasks writer_state) = [''B'', ''W'', ''B'']"
    "map Success (results writer_state) = [True, True, True]"
    "map Output (results writer_state) = [''out'', ''out'', ''out'']"
    "slice_val (hp writer_state) (contextData writer_state) =
     [''X'', ''Output from W task:'' @ [CHR 0x0A] @ ''out'', ''Output from B task:'' @ [CHR 0x0A] @ ''out'']"
    "slice_val (hp writer_state) (contextData writer_state) \<noteq>
     map (\<lambda>(t, r). context_entry (Type t) (Output r))
         (filter (\<lambda>(t, r). Success r) (zip (plan_tasks writer_state) (results writer_state)))"
    by (simp_all add: writer_run numeral_3_eq_3)
  from run rest show ?thesis by (intro conjI)
qed

text \<open>
  Claim C6.  In the review loop, for the current plan: a non-empty modification text
  returned without error is followed by exactly one \<^verbatim>\<open>Plan\<close> call, with that text as
  the goal, and the loop goes on with the plan that call returns in place of the
  current one (or the call fails with the re-planning error); an empty text returns the
  current plan; an error of the reviewer fails the call, which then returns no plan.
  Without a handler \<^verbatim>\<open>PlanWithReview\<close> returns the first plan as it is; with one it is
  the review loop on the first plan.  Whenever the loop returns, the goals of its
  \<^verbatim>\<open>Plan\<close> calls are exactly the modification texts, in order, and a returned plan is
  the plan of the last \<^verbatim>\<open>Plan\<close> call, or the plan the loop started with.
\<close>

theorem C6_plan_review:
  "(call_ReviewPlan handler plan st = ((m, None), st1) \<and> m \<noteq> [] \<longrightarrow>
      snd st1 = snd st @ [ReviewCalled plan m None] \<and>
      review_loop planner handler plan st =
        (case call_Plan planner m st1 of
           (Inl err, st2) \<Rightarrow> Some (Inl (RePlanningFailed err), st2)
         | (Inr plan', st2) \<Rightarrow> review_loop planner handler plan' st2) \<and>
      snd (snd (call_Plan planner m st1)) =
        snd st @ [ReviewCalled plan m None, PlanCalled m (fst (call_Plan planner m st1))]) \<and>
   (call_ReviewPlan handler plan st = (([], None), st1) \<longrightarrow>
      review_loop planner handler plan st = Some (Inr plan, st1)) \<and>
   (call_ReviewPlan handler plan st = ((m, Some err), st1) \<longrightarrow>
      review_loop planner handler plan st = Some (Inl (PlanReviewFailed err), st1)) \<and>
   (call_Plan planner userRequest st = (Inr plan, st1) \<longrightarrow>
      PlanWithReview planner None userRequest st = Some (Inr plan, st1) \<and>
      PlanWithReview planner (Some handler) userRequest st = review_loop planner handler plan st1) \<and>
   (\<forall>res w' log'.
      review_loop planner handler plan st = Some (res, w', log') \<longrightarrow>
      (\<exists>new. log' = snd st @ new \<and> plan_goals new = modification_texts new \<and>
         (\<forall>final. res = Inr final \<longrightarrow> final = last_plan plan new)))"
proof -
  have modify: "snd st1 = snd st @ [ReviewCalled plan m None] \<and>
      review_loop planner handler plan st =
        (case call_Plan planner m st1 of
           (Inl err, st2) \<Rightarrow> Some (Inl (RePlanningFailed err), st2)
         | (Inr plan', st2) \<Rightarrow> review_loop planner handler plan' st2) \<and>
      snd (snd (call_Plan planner m st1)) =
        snd st @ [ReviewCalled plan m None, PlanCalled m (fst (call_Plan planner m st1))]"
    if rv: "call_ReviewPlan handler plan st = ((m, None), st1)" and m: "m \<noteq> []"
  proof -
    obtain r st2 where pl: "call_Plan planner m st1 = (r, st2)" by (metis surj_pair)
    from call_ReviewPlan_log[OF rv] call_Plan_log[OF pl] pl review_modify[OF rv m, of planner]
    show ?thesis by simp
  qed
  have no_handler: "PlanWithReview planner None userRequest st = Some (Inr plan, st1) \<and>
      PlanWithReview planner (Some handler) userRequest st = review_loop planner handler plan st1"
    if "call_Plan planner userRequest st = (Inr plan, st1)"
    using that by (simp add: PlanWithReview_def)
  have whole: "\<exists>new. log' = snd st @ new \<and> plan_goals new = modification_texts new \<and>
         (\<forall>final. res = Inr final \<longrightarrow> final = last_plan plan new)"
    if "review_loop planner handler plan st = Some (res, w', log')" for res w' log'
    using review_loop_reviewed[OF that] by (auto simp: reviewed_def)
  from modify review_approve[of handler plan st st1 planner]
    review_reject[of handler plan st m err st1 planner] no_handler whole
  show ?thesis by blast
qed

theorem C6_plan_review_witness:
  "PlanWithReview ex_planner (Some ex_reviewer) ''REPORT'' (0, []) =
     Some (Inr (ex_plan [''SEARCH'']), 2,
           [PlanCalled ''REPORT'' (Inr (ex_plan [''REPORT''])),
            ReviewCalled (ex_plan [''REPORT'']) ''SEARCH'' None,
            PlanCalled ''SEARCH'' (Inr (ex_plan [''SEARCH''])),
            ReviewCalled (ex_plan [''SEARCH'']) [] None]) \<and>
   PlanWithReview ex_planner (Some ex_rejecter) ''REPORT'' (0, []) =
     Some (Inl (PlanReviewFailed ''plan rejected by user''), 1,
           [PlanCalled ''REPORT'' (Inr (ex_plan [''REPORT''])),
            ReviewCalled (ex_plan [''REPORT'']) [] (Some ''plan rejected by user'')]) \<and>
   PlanWithReview ex_planner None ''REPORT'' (0, []) =
     Some (Inr (ex_plan [''REPORT'']), 0, [PlanCalled ''REPORT'' (Inr (ex_plan [''REPORT'']))]) \<and>
   (\<exists>new. [PlanCalled ''REPORT'' (Inr (ex_plan [''REPORT''])),
            ReviewCalled (ex_plan [''REPORT'']) ''SEARCH'' None,
            PlanCalled ''SEARCH'' (Inr (ex_plan [''SEARCH''])),
            ReviewCalled (ex_plan [''SEARCH'']) [] None] =
             [PlanCalled ''REPORT'' (Inr (ex_plan [''REPORT'']))] @ new \<and>
          plan_goals new = modification_texts new \<and>
          ex_plan [''SEARCH''] = last_plan (ex_plan [''REPORT'']) new)"
proof -
  let ?first = "(0, [PlanCalled ''REPORT'' (Inr (ex_plan [''REPORT'']))]) :: nat \<times> review_event list"
  let ?second = "(1, [PlanCalled ''REPORT'' (Inr (ex_plan [''REPORT''])),
                     ReviewCalled (ex_plan [''REPORT'']) ''SEARCH'' None]) :: nat \<times> review_event list"
  let ?third = "(1, [PlanCalled ''REPORT'' (Inr (ex_plan [''REPORT''])),
                    ReviewCalled (ex_plan [''REPORT'']) ''SEARCH'' None,
                    PlanCalled ''SEARCH'' (Inr (ex_plan [''SEARCH'']))]) :: nat \<times> review_event list"
  let ?fourth = "(2, [PlanCalled ''REPORT'' (Inr (ex_plan [''REPORT''])),
                     ReviewCalled (ex_plan [''REPORT'']) ''SEARCH'' None,
                     PlanCalled ''SEARCH'' (Inr (ex_plan [''SEARCH''])),
                     ReviewCalled (ex_plan [''SEARCH'']) [] None]) :: nat \<times> review_event list"
  let ?rejected = "(1, [PlanCalled ''REPORT'' (Inr (ex_plan [''REPORT''])),
                       ReviewCalled (ex_plan [''REPORT'']) [] (Some ''plan rejected by user'')])
                   :: nat \<times> review_event list"
  have p0: "call_Plan ex_planner ''REPORT'' (0, []) = (Inr (ex_plan [''REPORT'']), ?first)"
    by (simp add: call_Plan_def ex_planner_def)
  have r1: "call_ReviewPlan ex_reviewer (ex_plan [''REPORT'']) ?first = ((''SEARCH'', None), ?second)"
    by (simp add: call_ReviewPlan_def ex_reviewer_def)
  have p1: "call_Plan ex_planner ''SEARCH'' ?second = (Inr (ex_plan [''SEARCH'']), ?third)"
    by (simp add: call_Plan_def ex_planner_def)
  have r2: "call_ReviewPlan ex_reviewer (ex_plan [''SEARCH'']) ?third = (([], None), ?fourth)"
    by (simp add: call_ReviewPlan_def ex_reviewer_def)
  have rj: "call_ReviewPlan ex_rejecter (ex_plan [''REPORT'']) ?first =
              (([], Some ''plan rejected by user''), ?rejected)"
    by (simp add: call_ReviewPlan_def ex_rejecter_def)
  note start = C6_plan_review[of ex_reviewer "ex_plan [''REPORT'']" "(0, [])" _ _ ex_planner _
                 "''REPORT''", THEN conjunct2, THEN conjunct2, THEN conjunct2, THEN conjunct1,
                 rule_format, OF p0]
  note round1 = C6_plan_review[of ex_reviewer "ex_plan [''REPORT'']" ?first "''SEARCH''" ?second
                  ex_planner, THEN conjunct1, rule_format, OF conjI, OF r1]
  note round2 = C6_plan_review[of ex_reviewer "ex_plan [''SEARCH'']" ?third _ ?fourth ex_planner,
                  THEN conjunct2, THEN conjunct1, rule_format, OF r2]
  note reject = C6_plan_review[of ex_rejecter "ex_plan [''REPORT'']" ?first "[]" ?rejected
                  ex_planner "''plan rejected by user''", THEN conjunct2, THEN conjunct2,
                  THEN conjunct1, rule_format, OF rj]
  note start' = C6_plan_review[of ex_rejecter "ex_plan [''REPORT'']" "(0, [])" _ _ ex_planner _
                 "''REPORT''", THEN conjunct2, THEN conjunct2, THEN conjunct2, THEN conjunct1,
                 rule_format, OF p0]
  have a: "PlanWithReview ex_planner (Some ex_reviewer) ''REPORT'' (0, []) = Some (Inr (ex_plan [''SEARCH'']), ?fourth)"
    using start round1 round2 p1 by simp
  have b: "PlanWithReview ex_planner (Some ex_rejecter) ''REPORT'' (0, []) =
             Some (Inl (PlanReviewFailed ''plan rejected by user''), ?rejected)"
    using start' reject by simp
  have c: "PlanWithReview ex_planner None ''REPORT'' (0, []) = Some (Inr (ex_plan [''REPORT'']), ?first)"
    using start by simp
  have loop: "review_loop ex_planner ex_reviewer (ex_plan [''REPORT'']) ?first =
                Some (Inr (ex_plan [''SEARCH'']), ?fourth)"
    using round1 round2 p1 by simp
  note whole = C6_plan_review[of ex_reviewer "ex_plan [''REPORT'']" ?first _ _ ex_planner,
                 THEN conjunct2, THEN conjunct2, THEN conjunct2, THEN conjunct2, rule_format]
  from whole[of "Inr (ex_plan [''SEARCH''])" 2 "snd ?fourth"] loop
  have d: "\<exists>new. snd ?fourth = snd ?first @ new \<and> plan_goals new = modification_texts new \<and>
             ex_plan [''SEARCH''] = last_plan (ex_plan [''REPORT'']) new"
    by simp
  from a b c d show ?thesis by simp
qed

text \<open>
  Claim C7.  The iteration ceiling is 3.  Whatever the collaborators answer, a run of the
  reflection loop asks the language model at most 3 times and issues at most 3 refined
  queries, and the text it returns is the text it started with followed by one block
  \<open>--- Additional Search Results ---\<close> for every refined search that answered, in
  order; it returns no text only when the model answers without error and without a
  choice, where line 119 panics.  An error of the evaluation call, in whatever round, is
  the last call of the loop, and the loop then returns the text accumulated so far.
  When the model always answers, and never with a text that contains \<open>SUFFICIENT\<close>, the
  loop asks exactly 3 times, issues exactly 3 refined queries, and then returns the
  accumulated text.  In every round an answer that contains \<open>SUFFICIENT\<close> (in any case, as
  the answer \<open>SUFFICIENT\<close> does) ends the loop with the text accumulated so far, and so does
  an error of the evaluation call.  Whenever the first search was answered, by Tavily or
  after its failure by DuckDuckGo, and the loop returns a text, the task succeeds with a
  nil error, and its output is that text, combined with the text of Wikipedia when
  Wikipedia answers with one.
\<close>

theorem C7_reflection_loop:
  assumes run: "reflection_loop env query 0 acc st = (res, st')"
  shows "maxIterations = 3 \<and>
         (\<exists>new. snd st' = snd st @ new \<and>
            length (filter is_chat new) \<le> 3 \<and> length (filter is_tavily new) \<le> 3 \<and>
            (res = Return (acc @ additions new) \<or>
             res = Panic \<and> new \<noteq> [] \<and> (\<exists>p. last new = CallChatCompletion p ([], None))) \<and>
            (\<forall>p x e. CallChatCompletion p (x, Some e) \<in> set new \<longrightarrow>
               res = Return (acc @ additions new) \<and> last new = CallChatCompletion p (x, Some e)) \<and>
            ((\<forall>p v. \<exists>c cs v'. CreateChatCompletion env p v = ((c # cs, None), v') \<and>
                       \<not> Contains (ToUpper (TrimSpace c)) ''SUFFICIENT'') \<longrightarrow>
               length (filter is_chat new) = 3 \<and> length (filter is_tavily new) = 3 \<and>
               res = Return (acc @ additions new))) \<and>
         Contains (ToUpper (TrimSpace ''SUFFICIENT'')) ''SUFFICIENT'' \<and>
         (\<forall>i a s c cs s1.
            i < 3 \<and> chat env (reflection_prompt query a) s = ((c # cs, None), s1) \<and>
            Contains (ToUpper (TrimSpace c)) ''SUFFICIENT'' \<longrightarrow>
            reflection_loop env query i a s = (Return a, s1)) \<and>
         (\<forall>i a s choices e s1.
            i < 3 \<and> chat env (reflection_prompt query a) s = ((choices, Some e), s1) \<longrightarrow>
            reflection_loop env query i a s = (Return a, s1)) \<and>
         (\<forall>task h s sr sA a sB.
            (tavily env (search_query h task) s = ((sr, None), sA) \<or>
             (\<exists>x e sT. tavily env (search_query h task) s = ((x, Some e), sT) \<and>
                        duckduckgo env (search_query h task) sT = ((sr, None), sA))) \<and>
            reflection_loop env (search_query h task) 0 sr sA = (Return a, sB) \<longrightarrow>
            (\<exists>r h' s'. SearchExecute env task (h, s) = (Return (r, None), h', s') \<and> Success r \<and>
               Output r = (case fst (wikipedia env (search_query h task) sB) of
                             (wikiResult, wikiErr) \<Rightarrow>
                               if wikiErr = None \<and> wikiResult \<noteq> []
                               then wikipedia_format a wikiResult else a)))"
proof -
  have m: "maxIterations - 0 = 3" by (simp add: maxIterations_def)
  from loop_log[OF m run] obtain new where new: "snd st' = snd st @ new"
    "length (filter is_chat new) \<le> 3" "length (filter is_tavily new) \<le> 3"
    "res = Return (acc @ additions new) \<or>
             res = Panic \<and> new \<noteq> [] \<and> (\<exists>p. last new = CallChatCompletion p ([], None))"
    "\<forall>p x e. CallChatCompletion p (x, Some e) \<in> set new \<longrightarrow>
               res = Return (acc @ additions new) \<and> last new = CallChatCompletion p (x, Some e)"
    by (elim exE conjE) (rule that)
  have insufficient: "length (filter is_chat new) = 3 \<and> length (filter is_tavily new) = 3 \<and>
               res = Return (acc @ additions new)"
    if always: "\<forall>p v. \<exists>c cs v'. CreateChatCompletion env p v = ((c # cs, None), v') \<and>
                       \<not> Contains (ToUpper (TrimSpace c)) ''SUFFICIENT''"
    using loop_insufficient[OF always m run] new(1) by auto
  have stop_sufficient: "reflection_loop env query i a s = (Return a, s1)"
    if "i < 3" "chat env (reflection_prompt query a) s = ((c # cs, None), s1)"
       "Contains (ToUpper (TrimSpace c)) ''SUFFICIENT''" for i a s c cs s1
    using that by (intro loop_stop round_sufficient) (simp_all add: maxIterations_def)
  have stop_error: "reflection_loop env query i a s = (Return a, s1)"
    if "i < 3" "chat env (reflection_prompt query a) s = ((choices, Some e), s1)" for i a s choices e s1
    using that by (intro loop_stop round_error) (simp_all add: maxIterations_def)
  have task_success: "\<exists>r h' s'. SearchExecute env task (h, s) = (Return (r, None), h', s') \<and> Success r \<and>
               Output r = (case fst (wikipedia env (search_query h task) sB) of
                             (wikiResult, wikiErr) \<Rightarrow>
                               if wikiErr = None \<and> wikiResult \<noteq> []
                               then wikipedia_format a wikiResult else a)"
    if "tavily env (search_query h task) s = ((sr, None), sA) \<or>
             (\<exists>x e sT. tavily env (search_query h task) s = ((x, Some e), sT) \<and>
                        duckduckgo env (search_query h task) sT = ((sr, None), sA))"
      and "reflection_loop env (search_query h task) 0 sr sA = (Return a, sB)"
    for task h s sr sA a sB
    using that by (rule search_after_loop)
  have bound: "\<exists>new. snd st' = snd st @ new \<and>
            length (filter is_chat new) \<le> 3 \<and> length (filter is_tavily new) \<le> 3 \<and>
            (res = Return (acc @ additions new) \<or>
             res = Panic \<and> new \<noteq> [] \<and> (\<exists>p. last new = CallChatCompletion p ([], None))) \<and>
            (\<forall>p x e. CallChatCompletion p (x, Some e) \<in> set new \<longrightarrow>
               res = Return (acc @ additions new) \<and> last new = CallChatCompletion p (x, Some e)) \<and>
            ((\<forall>p v. \<exists>c cs v'. CreateChatCompletion env p v = ((c # cs, None), v') \<and>
                       \<not> Contains (ToUpper (TrimSpace c)) ''SUFFICIENT'') \<longrightarrow>
               length (filter is_chat new) = 3 \<and> length (filter is_tavily new) = 3 \<and>
               res = Return (acc @ additions new))"
    using new insufficient by (intro exI[of _ new] conjI impI) blast+
  have three: "maxIterations = 3" by (simp add: maxIterations_def)
  have s1: "\<forall>i a s c cs s1.
            i < 3 \<and> chat env (reflection_prompt query a) s = ((c # cs, None), s1) \<and>
            Contains (ToUpper (TrimSpace c)) ''SUFFICIENT'' \<longrightarrow>
            reflection_loop env query i a s = (Return a, s1)"
    using stop_sufficient by blast
  have s2: "\<forall>i a s choices e s1.
            i < 3 \<and> chat env (reflection_prompt query a) s = ((choices, Some e), s1) \<longrightarrow>
            reflection_loop env query i a s = (Return a, s1)"
    using stop_error by blast
  have s3: "\<forall>task h s sr sA a sB.
            (tavily env (search_query h task) s = ((sr, None), sA) \<or>
             (\<exists>x e sT. tavily env (search_query h task) s = ((x, Some e), sT) \<and>
                        duckduckgo env (search_query h task) sT = ((sr, None), sA))) \<and>
            reflection_loop env (search_query h task) 0 sr sA = (Return a, sB) \<longrightarrow>
            (\<exists>r h' s'. SearchExecute env task (h, s) = (Return (r, None), h', s') \<and> Success r \<and>
               Output r = (case fst (wikipedia env (search_query h task) sB) of
                             (wikiResult, wikiErr) \<Rightarrow>
                               if wikiErr = None \<and> wikiResult \<noteq> []
                               then wikipedia_format a wikiResult else a))"
    using task_success by (intro allI impI) (elim conjE, assumption)
  from three bound sufficient_answer s1 s2 s3 show ?thesis by (intro conjI)
qed

theorem C7_reflection_loop_witness:
  "(\<exists>new. reflection_loop (ex_env (''r'', None) ([], None) ([''more detail''], None)) ''q'' 0 ''r0'' ((), []) =
        (Return (''r0'' @ additions new), (), new) \<and>
        length (filter is_chat new) = 3 \<and> length (filter is_tavily new) = 3 \<and>
        ''r0'' @ additions new =
          ''r0'' @ additional_results ''r'' @ additional_results ''r'' @ additional_results ''r'') \<and>
   (\<exists>st'. reflection_loop (ex_env (''r'', None) ([], None) ([''Sufficient.''], None)) ''q'' 0 ''r0'' ((), []) =
        (Return ''r0'', st')) \<and>
   (\<exists>st'. reflection_loop (ex_env (''r'', None) ([], None) ([], Some ''timeout'')) ''q'' 0 ''r0'' ((), []) =
        (Return ''r0'', st')) \<and>
   (\<exists>r h' st'. SearchExecute ex_env_fallback (ex_task ''SEARCH'') (heap0, 0, []) = (Return (r, None), h', st') \<and>
        Success r \<and> Output r = ''d1'' @ additional_results ''d1'' \<and>
        map is_chat (snd st') = [False, False, True, False, False, True, False])"
proof -
  let ?more = "ex_env (''r'', None) ([], None) ([''more detail''], None)"
  let ?enough = "ex_env (''r'', None) ([], None) ([''Sufficient.''], None)"
  let ?broken = "ex_env (''r'', None) ([], None) ([], Some ''timeout'')"
  let ?st = "((), []) :: unit \<times> call list"
  have trim: "Trim (TrimSpace ''more detail'') [CHR 0x22, CHR 0x27] = ''more detail''" by code_simp
  have three: "(2::nat) < 3" "Suc 0 < 3" "(0::nat) < 3" "\<not> (3::nat) < 3" by simp_all
  \<comment> \<open>the model always asks for more\<close>
  obtain res st' where run: "reflection_loop ?more ''q'' 0 ''r0'' ?st = (res, st')"
    by (metis surj_pair)
  have always: "\<forall>p v. \<exists>c cs v'. CreateChatCompletion ?more p v = ((c # cs, None), v') \<and>
                       \<not> Contains (ToUpper (TrimSpace c)) ''SUFFICIENT''"
    using insufficient_answer by (simp add: ex_env_def)
  have round: "reflection_round ?more ''q'' a (u, l) =
        (Inr (a @ additional_results ''r''),
         (), l @ [CallChatCompletion (reflection_prompt ''q'' a) ([''more detail''], None),
                  CallTavily ''more detail'' (''r'', None)])" for a u l
    by (simp add: reflection_round_def chat_def tavily_def ex_env_def insufficient_answer trim
                  additional_results_def)
  have log: "\<exists>l. st' = ((), l) \<and> map is_chat l = [True, False, True, False, True, False] \<and>
                  additions l = additional_results ''r'' @ additional_results ''r'' @ additional_results ''r''"
    using run
    by (auto simp: reflection_loop.simps[of _ _ 0] reflection_loop.simps[of _ _ "Suc 0"]
                   reflection_loop.simps[of _ _ "Suc (Suc 0)"] reflection_loop.simps[of _ _ "Suc (Suc (Suc 0))"]
                   round maxIterations_def numeral_3_eq_3)
  from C7_reflection_loop[OF run] always
  obtain new where n: "snd st' = snd ?st @ new" "length (filter is_chat new) = 3"
    "length (filter is_tavily new) = 3" "res = Return (''r0'' @ additions new)"
    by (elim conjE exE) blast
  from log n(1) have "st' = ((), new)"
    "additions new = additional_results ''r'' @ additional_results ''r'' @ additional_results ''r''"
    by auto
  with run n have first: "\<exists>new. reflection_loop ?more ''q'' 0 ''r0'' ?st =
        (Return (''r0'' @ additions new), (), new) \<and>
        length (filter is_chat new) = 3 \<and> length (filter is_tavily new) = 3 \<and>
        ''r0'' @ additions new =
          ''r0'' @ additional_results ''r'' @ additional_results ''r'' @ additional_results ''r''"
    by (intro exI[of _ new]) simp
  \<comment> \<open>the model is satisfied at once\<close>
  obtain res2 st2 where run2: "reflection_loop ?enough ''q'' 0 ''r0'' ?st = (res2, st2)"
    by (metis surj_pair)
  have enough: "Contains (ToUpper (TrimSpace ''Sufficient.'')) ''SUFFICIENT''" by code_simp
  have chat2: "chat ?enough (reflection_prompt ''q'' ''r0'') ?st =
      ((''Sufficient.'' # [], None), (),
       [CallChatCompletion (reflection_prompt ''q'' ''r0'') ([''Sufficient.''], None)])"
    by (simp add: chat_def ex_env_def)
  note stop2 = C7_reflection_loop[OF run2, THEN conjunct2, THEN conjunct2, THEN conjunct2,
                 THEN conjunct1, rule_format, OF conjI, OF three(3) conjI, OF chat2 enough]
  then have second: "\<exists>st'. reflection_loop ?enough ''q'' 0 ''r0'' ?st = (Return ''r0'', st')"
    by (intro exI)
  \<comment> \<open>the evaluation call fails\<close>
  obtain res3 st3 where run3: "reflection_loop ?broken ''q'' 0 ''r0'' ?st = (res3, st3)"
    by (metis surj_pair)
  have chat3: "chat ?broken (reflection_prompt ''q'' ''r0'') ?st =
      (([], Some ''timeout''), (),
       [CallChatCompletion (reflection_prompt ''q'' ''r0'') ([], Some ''timeout'')])"
    by (simp add: chat_def ex_env_def)
  note stop3 = C7_reflection_loop[OF run3, THEN conjunct2, THEN conjunct2, THEN conjunct2,
                 THEN conjunct2, THEN conjunct1, rule_format, OF conjI, OF three(3) chat3]
  then have third: "\<exists>st'. reflection_loop ?broken ''q'' 0 ''r0'' ?st = (Return ''r0'', st')"
    by (intro exI)
  \<comment> \<open>DuckDuckGo answers for Tavily, and the evaluation call fails in the second round\<close>
  let ?q = "search_query heap0 (ex_task ''SEARCH'')"
  let ?t = "CallTavily ''d'' ([], Some ''tavily down'')"
  let ?d = "CallDuckDuckGo ''d'' (''d1'', None)"
  let ?c1 = "CallChatCompletion (reflection_prompt ''d'' ''d1'') ([''more detail''], None)"
  let ?t1 = "CallTavily ''more detail'' ([], Some ''tavily down'')"
  let ?d1 = "CallDuckDuckGo ''more detail'' (''d1'', None)"
  let ?c2 = "CallChatCompletion (reflection_prompt ''d'' (''d1'' @ additional_results ''d1''))
               ([], Some ''timeout'')"
  have q: "?q = ''d''" by (simp add: search_query_def param_def ex_task_def)
  have tav: "tavily ex_env_fallback ?q (0, []) = (([], Some ''tavily down''), 0, [?t])"
    by (simp add: q tavily_def ex_env_fallback_def)
  have ddg: "duckduckgo ex_env_fallback ?q (0, [?t]) = ((''d1'', None), 0, [?t, ?d])"
    by (simp add: q duckduckgo_def ex_env_fallback_def)
  have round1: "reflection_round ex_env_fallback ''d'' ''d1'' (0, [?t, ?d]) =
        (Inr (''d1'' @ additional_results ''d1''), Suc 0, [?t, ?d, ?c1, ?t1, ?d1])"
    by (simp add: reflection_round_def chat_def tavily_def duckduckgo_def ex_env_fallback_def
                  insufficient_answer trim additional_results_def Let_def)
  have round2: "reflection_round ex_env_fallback ''d'' (''d1'' @ additional_results ''d1'')
                  (Suc 0, [?t, ?d, ?c1, ?t1, ?d1]) =
        (Inl (Return (''d1'' @ additional_results ''d1'')), Suc (Suc 0), [?t, ?d, ?c1, ?t1, ?d1, ?c2])"
    by (simp add: reflection_round_def chat_def ex_env_fallback_def)
  have run4: "reflection_loop ex_env_fallback ?q 0 ''d1'' (0, [?t, ?d]) =
        (Return (''d1'' @ additional_results ''d1''), Suc (Suc 0), [?t, ?d, ?c1, ?t1, ?d1, ?c2])"
    by (simp add: q reflection_loop.simps[of _ _ 0] reflection_loop.simps[of _ _ "Suc 0"]
                  round1 round2[simplified] maxIterations_def)
  have first_search: "tavily ex_env_fallback ?q (0, []) = ((''d1'', None), 0, [?t, ?d]) \<or>
        (\<exists>x e sT. tavily ex_env_fallback ?q (0, []) = ((x, Some e), sT) \<and>
                   duckduckgo ex_env_fallback ?q sT = ((''d1'', None), 0, [?t, ?d]))"
    using tav ddg by (intro disjI2 exI conjI)
  note task = C7_reflection_loop[OF run4, THEN conjunct2, THEN conjunct2, THEN conjunct2,
                 THEN conjunct2, THEN conjunct2, rule_format, OF conjI, OF first_search run4]
  then obtain r h' s' where
    s: "SearchExecute ex_env_fallback (ex_task ''SEARCH'') (heap0, 0, []) = (Return (r, None), h', s')"
    and ok: "Success r"
    and out: "Output r = (case fst (wikipedia ex_env_fallback ?q (Suc (Suc 0), [?t, ?d, ?c1, ?t1, ?d1, ?c2])) of
                             (wikiResult, wikiErr) \<Rightarrow>
                               if wikiErr = None \<and> wikiResult \<noteq> []
                               then wikipedia_format (''d1'' @ additional_results ''d1'') wikiResult
                               else ''d1'' @ additional_results ''d1'')"
    by (elim exE conjE) (rule that)
  from out have out': "Output r = ''d1'' @ additional_results ''d1''"
    by (simp add: wikipedia_def ex_env_fallback_def)
  have wk: "wikipedia ex_env_fallback ''d'' (Suc (Suc 0), [?t, ?d, ?c1, ?t1, ?d1, ?c2]) =
          (([], Some ''wikipedia down''), Suc (Suc 0),
           [?t, ?d, ?c1, ?t1, ?d1, ?c2, CallWikipedia ''d'' ([], Some ''wikipedia down'')])"
    by (simp add: wikipedia_def ex_env_fallback_def)
  have "snd (snd (snd (SearchExecute ex_env_fallback (ex_task ''SEARCH'') (heap0, 0, [])))) =
          [?t, ?d, ?c1, ?t1, ?d1, ?c2, CallWikipedia ''d'' ([], Some ''wikipedia down'')]"
    by (simp add: SearchExecute_def search_finish_def Let_def q tav[unfolded q] ddg[unfolded q]
                  run4[unfolded q, simplified] wk[simplified] split_beta)
  with s have "map is_chat (snd s') = [False, False, True, False, False, True, False]" by simp
  with s ok out' have fourth: "\<exists>r h' st'. SearchExecute ex_env_fallback (ex_task ''SEARCH'') (heap0, 0, []) =
        (Return (r, None), h', st') \<and>
        Success r \<and> Output r = ''d1'' @ additional_results ''d1'' \<and>
        map is_chat (snd st') = [False, False, True, False, False, True, False]"
    by (intro exI conjI)
  from first second third fourth show ?thesis by (intro conjI)
qed

text \<open>
  Claim C8 does not hold of the code.  When Tavily and DuckDuckGo both fail,
  \<^verbatim>\<open>Execute\<close> returns the failed result and the error at once (lines 73--79); Wikipedia
  is only asked after the loop, when one of the two has answered (line 167).  Here both
  fail and Wikipedia would answer: the result reports failure, and the calls made are the
  one to Tavily and the one to DuckDuckGo.
\<close>

theorem C8_failure_without_wikipedia:
  "fst (SearchExecute (ex_env ([], Some ''tavily down'') ([], Some ''duckduckgo down'') ([''SUFFICIENT''], None))
          (ex_task ''SEARCH'') (heap0, (), [])) =
     Return (\<lparr>TaskType = ''SEARCH'', Success = False, Output = [], Error = ''duckduckgo down'',
               Metadata = None, NewTasks = []\<rparr>, Some ''duckduckgo down'') \<and>
   snd (snd (snd (SearchExecute (ex_env ([], Some ''tavily down'') ([], Some ''duckduckgo down'') ([''SUFFICIENT''], None))
          (ex_task ''SEARCH'') (heap0, (), [])))) =
     [CallTavily ''d'' ([], Some ''tavily down''),
      CallDuckDuckGo ''d'' ([], Some ''duckduckgo down'')] \<and>
   WikipediaSearch (ex_env ([], Some ''tavily down'') ([], Some ''duckduckgo down'') ([''SUFFICIENT''], None)) ''d'' () =
     ((''wiki'', None), ())"
  by (simp add: SearchExecute_def search_query_def param_def ex_task_def tavily_def duckduckgo_def
                ex_env_def TaskTypeSearch_def Let_def)

text \<open>
  Claim C9 does not hold of the code.  The comment at line 264 says that a context the
  parameters already hold is appended to, and for a task whose \<open>context\<close> is a
  \<^verbatim>\<open>[]string\<close> it is: after the first task has succeeded, the entry \<open>own\<close> of the
  second task stays in front of the accumulated entry.  For a task that declares its
  context as a generic list, which is what a list in the JSON of a plan becomes, the
  type assertion of line 265 fails, and line 268 replaces the entry \<open>own\<close> by the
  accumulated entry.
\<close>

theorem C9_generic_list_overwritten:
  "exec_steps ex_agent 1 (init_state ctx_plan (ctx_heap (PArray [PString ''own''])) ()) =
     Some (ctx_state (PArray [PString ''own''])) \<and>
   slice_val (hp (ctx_state (PArray [PString ''own''])))
             (contextData (ctx_state (PArray [PString ''own'']))) =
     [''Output from B task:'' @ [CHR 0x0A] @ ''out''] \<and>
   param (hp (ctx_state (PArray [PString ''own''])))
         (Parameters (plan_tasks (ctx_state (PArray [PString ''own''])) !
                        loop_i (ctx_state (PArray [PString ''own''])))) ''context'' =
     Some (PArray [PString ''own'']) \<and>
   context_strings (snd (fst (dispatch ex_agent (ctx_state (PArray [PString ''own''])))))
         (Parameters (fst (fst (dispatch ex_agent (ctx_state (PArray [PString ''own'']))))))  =
     Some [''Output from B task:'' @ [CHR 0x0A] @ ''out''] \<and>
   exec_steps ex_agent 1 (init_state ctx_plan (ctx_heap (PStrings own_slice)) ()) =
     Some (ctx_state (PStrings own_slice)) \<and>
   context_strings (hp (ctx_state (PStrings own_slice)))
         (Parameters (plan_tasks (ctx_state (PStrings own_slice)) !
                        loop_i (ctx_state (PStrings own_slice)))) =
     Some [''own''] \<and>
   context_strings (snd (fst (dispatch ex_agent (ctx_state (PStrings own_slice)))))
         (Parameters (fst (fst (dispatch ex_agent (ctx_state (PStrings own_slice)))))) =
     Some [''own'', ''Output from B task:'' @ [CHR 0x0A] @ ''out'']"
  by (simp add: ctx_run)

text \<open>
  Claim C10.  A step whose subagent returns no error and a result \<open>r\<close> that reports
  failure only appends \<open>r\<close> to the results and advances the cursor: the task sequence
  and \<^verbatim>\<open>contextData\<close> are unchanged, whatever \<open>NewTasks r\<close> holds, and the heap and
  the world are as the subagent left them.
\<close>

theorem C10_failed_step_frame:
  assumes d: "dispatch ag s = ((task, h), Some ((r, None), h', w'))"
    and fail: "\<not> Success r"
  shows "\<exists>s'. exec_step ag s = Inr s' \<and>
           s' = s\<lparr>hp := h', world := w', results := results s @ [r], loop_i := loop_i s + 1\<rparr> \<and>
           plan_tasks s' = plan_tasks s \<and>
           contextData s' = contextData s \<and>
           results s' = results s @ [r]"
  using exec_step_ok[OF d] fail by simp

theorem C10_failed_step_frame_witness:
  "\<exists>s'. exec_step ex_agent (init_state (ex_plan [''F'', ''C'']) heap0 ()) = Inr s' \<and>
        plan_tasks s' = [ex_task ''F'', ex_task ''C''] \<and>
        contextData s' = nil_slice \<and>
        map NewTasks (results s') = [[ex_task ''B'']]"
proof -
  let ?s = "init_state (ex_plan [''F'', ''C'']) heap0 ()"
  let ?r = "ex_result False ''boom'' [ex_task ''B''] (ex_task ''F'')"
  have "\<exists>task h. dispatch ex_agent ?s = ((task, h), Some ((?r, None), h, ()))"
    by (simp add: ex_defs)
  then obtain task h where d: "dispatch ex_agent ?s = ((task, h), Some ((?r, None), h, ()))"
    by (elim exE) (rule that)
  have fail: "\<not> Success ?r" by (simp add: ex_result_def)
  from C10_failed_step_frame[OF d fail]
  show ?thesis by (auto simp: init_state_def ex_plan_def ex_result_def)
qed

end
